theory Spec2Isabelle
  imports Main "HOL-Library.Word"
begin

section \<open>JavaScript strings and literal regular expressions\<close>

text \<open>
  A JavaScript string is a sequence of UTF-16 code units; \<open>length\<close>, indexing,
  \<open>substring\<close> and a regular expression without the \<open>u\<close> flag all work on code
  units. Every Arabic letter of the rule tables lies in the Basic Multilingual Plane and
  is one code unit.
\<close>

type_synonym jschar = "16 word"
type_synonym jsstring = "jschar list"

definition ascii :: "string \<Rightarrow> jsstring" where
  "ascii s = map of_char s"

text \<open>
  The patterns of the rule tables are literals (letters and digits, no metacharacter)
  carrying the flags \<open>g\<close> and possibly \<open>i\<close>.
\<close>

record regexp =
  source :: jsstring
  global :: bool
  ignoreCase :: bool

definition regex :: "string \<Rightarrow> string \<Rightarrow> regexp" where
  "regex src fl =
     \<lparr>source = ascii src, global = (CHR ''g'' \<in> set fl), ignoreCase = (CHR ''i'' \<in> set fl)\<rparr>"

text \<open>
  Case-insensitive matching without the \<open>u\<close> flag compares the canonical forms of the
  two code units (ECMAScript \<open>Canonicalize\<close>): the upper-case form, except that a code
  unit of value 128 or more never canonicalises to one below 128. For a pattern code unit
  below 128 the input code unit therefore matches exactly when it is below 128 as well
  and has the same ASCII upper-case form. Every pattern of the tables is ASCII.
\<close>

definition ascii_upper :: "jschar \<Rightarrow> jschar" where
  "ascii_upper c = (if 0x61 \<le> c \<and> c \<le> 0x7A then c - 0x20 else c)"

definition unit_matches :: "bool \<Rightarrow> jschar \<Rightarrow> jschar \<Rightarrow> bool" where
  "unit_matches ic p c =
     (c = p \<or> (ic \<and> p < 0x80 \<and> c < 0x80 \<and> ascii_upper c = ascii_upper p))"

text \<open>Does the literal match at the start of the string?\<close>

fun matches_at :: "bool \<Rightarrow> jsstring \<Rightarrow> jsstring \<Rightarrow> bool" where
  "matches_at ic [] s = True"
| "matches_at ic (p # ps) [] = False"
| "matches_at ic (p # ps) (c # cs) = (unit_matches ic p c \<and> matches_at ic ps cs)"

text \<open>
  \<open>String.prototype.replace(re, rep)\<close> for a literal pattern and a replacement without
  \<open>$\<close>: the string is scanned from the left; at a match the replacement is emitted and
  the scan resumes behind the match (one code unit further for an empty match); without
  the \<open>g\<close> flag only the first match is replaced.
\<close>

fun replace :: "regexp \<Rightarrow> jsstring \<Rightarrow> jsstring \<Rightarrow> jsstring" where
  "replace re rep [] = (if source re = [] then rep else [])"
| "replace re rep (c # cs) =
     (if matches_at (ignoreCase re) (source re) (c # cs) then
        (if source re = [] then rep @ c # (if global re then replace re rep cs else cs)
         else rep @ (if global re then replace re rep (drop (length (source re) - 1) cs)
                     else drop (length (source re) - 1) cs))
      else c # replace re rep cs)"

section \<open>The transliterator\<close>

record rule =
  pattern :: regexp
  arabic :: jsstring

record engine =
  rules :: "rule list"
  isEnabled :: bool
  keyboardLayout :: string
  separators :: "jschar list"

text \<open>
  The repository holds two versions of the class \<open>ArabicTransliterator\<close>, which differ
  in the rule table only: \<open>src/background/transliteration-rules.js\<close>, and the later one
  of \<open>src/unnamed/part_008\<close> with the rules for \<open>T\<close>, \<open>O\<close>, \<open>Y\<close> and a case-sensitive
  \<open>t\<close>.
\<close>

datatype version = Background | Part008

definition rules_background :: "rule list" where
  "rules_background =
    [\<lparr>pattern = regex ''sh'' ''gi'', arabic = [0x0634]\<rparr>,
     \<lparr>pattern = regex ''th'' ''gi'', arabic = [0x062B]\<rparr>,
     \<lparr>pattern = regex ''dh'' ''gi'', arabic = [0x0630]\<rparr>,
     \<lparr>pattern = regex ''ch'' ''gi'', arabic = [0x0634]\<rparr>,
     \<lparr>pattern = regex ''3'' ''g'', arabic = [0x0639]\<rparr>,
     \<lparr>pattern = regex ''7'' ''g'', arabic = [0x062D]\<rparr>,
     \<lparr>pattern = regex ''5'' ''g'', arabic = [0x062E]\<rparr>,
     \<lparr>pattern = regex ''2'' ''g'', arabic = [0x0621]\<rparr>,
     \<lparr>pattern = regex ''9'' ''g'', arabic = [0x0642]\<rparr>,
     \<lparr>pattern = regex ''6'' ''g'', arabic = [0x0637]\<rparr>,
     \<lparr>pattern = regex ''8'' ''g'', arabic = [0x063A]\<rparr>,
     \<lparr>pattern = regex ''S'' ''g'', arabic = [0x0635]\<rparr>,
     \<lparr>pattern = regex ''D'' ''g'', arabic = [0x0636]\<rparr>,
     \<lparr>pattern = regex ''Z'' ''g'', arabic = [0x0638]\<rparr>,
     \<lparr>pattern = regex ''a'' ''gi'', arabic = [0x0627]\<rparr>,
     \<lparr>pattern = regex ''b'' ''gi'', arabic = [0x0628]\<rparr>,
     \<lparr>pattern = regex ''t'' ''gi'', arabic = [0x062A]\<rparr>,
     \<lparr>pattern = regex ''j'' ''gi'', arabic = [0x062C]\<rparr>,
     \<lparr>pattern = regex ''d'' ''gi'', arabic = [0x062F]\<rparr>,
     \<lparr>pattern = regex ''r'' ''gi'', arabic = [0x0631]\<rparr>,
     \<lparr>pattern = regex ''z'' ''gi'', arabic = [0x0632]\<rparr>,
     \<lparr>pattern = regex ''s'' ''gi'', arabic = [0x0633]\<rparr>,
     \<lparr>pattern = regex ''f'' ''gi'', arabic = [0x0641]\<rparr>,
     \<lparr>pattern = regex ''k'' ''gi'', arabic = [0x0643]\<rparr>,
     \<lparr>pattern = regex ''l'' ''gi'', arabic = [0x0644]\<rparr>,
     \<lparr>pattern = regex ''m'' ''gi'', arabic = [0x0645]\<rparr>,
     \<lparr>pattern = regex ''n'' ''gi'', arabic = [0x0646]\<rparr>,
     \<lparr>pattern = regex ''h'' ''gi'', arabic = [0x0647]\<rparr>,
     \<lparr>pattern = regex ''w'' ''gi'', arabic = [0x0648]\<rparr>,
     \<lparr>pattern = regex ''y'' ''gi'', arabic = [0x064A]\<rparr>,
     \<lparr>pattern = regex ''p'' ''gi'', arabic = [0x0628]\<rparr>,
     \<lparr>pattern = regex ''e'' ''gi'', arabic = [0x064A]\<rparr>,
     \<lparr>pattern = regex ''i'' ''gi'', arabic = [0x064A]\<rparr>,
     \<lparr>pattern = regex ''o'' ''gi'', arabic = [0x0648]\<rparr>,
     \<lparr>pattern = regex ''u'' ''gi'', arabic = [0x0648]\<rparr>]"

definition rules_part008 :: "rule list" where
  "rules_part008 =
    [\<lparr>pattern = regex ''sh'' ''gi'', arabic = [0x0634]\<rparr>,
     \<lparr>pattern = regex ''th'' ''gi'', arabic = [0x062B]\<rparr>,
     \<lparr>pattern = regex ''dh'' ''gi'', arabic = [0x0630]\<rparr>,
     \<lparr>pattern = regex ''ch'' ''gi'', arabic = [0x0634]\<rparr>,
     \<lparr>pattern = regex ''3'' ''g'', arabic = [0x0639]\<rparr>,
     \<lparr>pattern = regex ''7'' ''g'', arabic = [0x062D]\<rparr>,
     \<lparr>pattern = regex ''5'' ''g'', arabic = [0x062E]\<rparr>,
     \<lparr>pattern = regex ''2'' ''g'', arabic = [0x0621]\<rparr>,
     \<lparr>pattern = regex ''9'' ''g'', arabic = [0x0642]\<rparr>,
     \<lparr>pattern = regex ''6'' ''g'', arabic = [0x0637]\<rparr>,
     \<lparr>pattern = regex ''8'' ''g'', arabic = [0x063A]\<rparr>,
     \<lparr>pattern = regex ''S'' ''g'', arabic = [0x0635]\<rparr>,
     \<lparr>pattern = regex ''D'' ''g'', arabic = [0x0636]\<rparr>,
     \<lparr>pattern = regex ''Z'' ''g'', arabic = [0x0638]\<rparr>,
     \<lparr>pattern = regex ''T'' ''g'', arabic = [0x062A]\<rparr>,
     \<lparr>pattern = regex ''O'' ''g'', arabic = [0x0624]\<rparr>,
     \<lparr>pattern = regex ''Y'' ''g'', arabic = [0x0626]\<rparr>,
     \<lparr>pattern = regex ''a'' ''gi'', arabic = [0x0627]\<rparr>,
     \<lparr>pattern = regex ''b'' ''gi'', arabic = [0x0628]\<rparr>,
     \<lparr>pattern = regex ''t'' ''g'', arabic = [0x0629]\<rparr>,
     \<lparr>pattern = regex ''j'' ''gi'', arabic = [0x062C]\<rparr>,
     \<lparr>pattern = regex ''d'' ''gi'', arabic = [0x062F]\<rparr>,
     \<lparr>pattern = regex ''r'' ''gi'', arabic = [0x0631]\<rparr>,
     \<lparr>pattern = regex ''z'' ''gi'', arabic = [0x0632]\<rparr>,
     \<lparr>pattern = regex ''s'' ''gi'', arabic = [0x0633]\<rparr>,
     \<lparr>pattern = regex ''f'' ''gi'', arabic = [0x0641]\<rparr>,
     \<lparr>pattern = regex ''k'' ''gi'', arabic = [0x0643]\<rparr>,
     \<lparr>pattern = regex ''l'' ''gi'', arabic = [0x0644]\<rparr>,
     \<lparr>pattern = regex ''m'' ''gi'', arabic = [0x0645]\<rparr>,
     \<lparr>pattern = regex ''n'' ''gi'', arabic = [0x0646]\<rparr>,
     \<lparr>pattern = regex ''h'' ''gi'', arabic = [0x0647]\<rparr>,
     \<lparr>pattern = regex ''w'' ''gi'', arabic = [0x0648]\<rparr>,
     \<lparr>pattern = regex ''y'' ''gi'', arabic = [0x064A]\<rparr>,
     \<lparr>pattern = regex ''p'' ''gi'', arabic = [0x0628]\<rparr>,
     \<lparr>pattern = regex ''e'' ''gi'', arabic = [0x064A]\<rparr>,
     \<lparr>pattern = regex ''i'' ''gi'', arabic = [0x064A]\<rparr>,
     \<lparr>pattern = regex ''o'' ''gi'', arabic = [0x0648]\<rparr>,
     \<lparr>pattern = regex ''u'' ''gi'', arabic = [0x0648]\<rparr>]"

text \<open>
  The separator list, the same in both versions: space, then
  \<open>. , ! ? ; : ( ) [ ] { } - _ + = * / \ | & % $ # @ ^ ~ ` < > " '\<close>.
\<close>

definition separator_list :: "jschar list" where
  "separator_list =
     [0x20, 0x2E, 0x2C, 0x21, 0x3F, 0x3B, 0x3A, 0x28, 0x29, 0x5B, 0x5D, 0x7B, 0x7D, 0x2D,
      0x5F, 0x2B, 0x3D, 0x2A, 0x2F, 0x5C, 0x7C, 0x26, 0x25, 0x24, 0x23, 0x40, 0x5E, 0x7E,
      0x60, 0x3C, 0x3E, 0x22, 0x27]"

fun rule_table :: "version \<Rightarrow> rule list" where
  "rule_table Background = rules_background"
| "rule_table Part008 = rules_part008"

text \<open>The constructor.\<close>

definition ArabicTransliterator :: "version \<Rightarrow> engine" where
  "ArabicTransliterator v =
     \<lparr>rules = rule_table v, isEnabled = True, keyboardLayout = ''AZERTY'',
      separators = separator_list\<rparr>"

definition transliterate :: "engine \<Rightarrow> jsstring \<Rightarrow> jsstring" where
  "transliterate e input =
     (if input = [] then []
      else fold (\<lambda>rule result. replace (pattern rule) (arabic rule) result) (rules e) input)"

definition getPreview :: "engine \<Rightarrow> jsstring \<Rightarrow> jsstring" where
  "getPreview e input = transliterate e input"

definition setEnabled :: "bool \<Rightarrow> engine \<Rightarrow> engine" where
  "setEnabled enabled e = e\<lparr>isEnabled := enabled\<rparr>"

definition setKeyboardLayout :: "string \<Rightarrow> engine \<Rightarrow> engine" where
  "setKeyboardLayout layout e = e\<lparr>keyboardLayout := layout\<rparr>"

definition isTransliteratorEnabled :: "engine \<Rightarrow> bool" where
  "isTransliteratorEnabled e = isEnabled e"

section \<open>Real-time transliteration\<close>

text \<open>
  The cursor position and the loop counters are JavaScript numbers holding integers.
  This section reads them as mathematical integers, which is what the code computes as
  long as every counter stays within magnitude \<open>2^53\<close>. The next section gives the
  loops on doubles, where \<open>i--\<close> and \<open>i++\<close> round; the two readings agree for every
  string of fewer than \<open>2^53\<close> code units and every cursor of magnitude at most
  \<open>2^53 + 2\<close> (lemma \<open>transliterateRealTime_double_exact\<close>).
  Reading \<open>currentText[i]\<close> outside the string gives \<open>undefined\<close>, here \<open>None\<close>,
  which \<open>separators.includes\<close> does not find.
\<close>

record rt_result =
  "text" :: jsstring
  newCursorPosition :: int

definition char_at :: "jsstring \<Rightarrow> int \<Rightarrow> jschar option" where
  "char_at s i = (if 0 \<le> i \<and> i < int (length s) then Some (s ! nat i) else None)"

definition includes_unit :: "jschar list \<Rightarrow> jschar option \<Rightarrow> bool" where
  "includes_unit seps x = (case x of None \<Rightarrow> False | Some c \<Rightarrow> c \<in> set seps)"

text \<open>
  The first loop, \<open>for (let i = cursorPosition - 1; i >= 0; i--)\<close>, started at \<open>i\<close>:
  the index of the nearest separator at or below \<open>i\<close>, or the initial value \<open>-1\<close> of
  \<open>leftBoundary\<close>.
\<close>

function leftBoundary_loop :: "engine \<Rightarrow> jsstring \<Rightarrow> int \<Rightarrow> int" where
  "leftBoundary_loop e currentText i =
     (if i \<ge> 0 then
        (if includes_unit (separators e) (char_at currentText i) then i
         else leftBoundary_loop e currentText (i - 1))
      else -1)"
  by pat_completeness auto
termination
  by (relation "measure (\<lambda>(e, currentText, i). nat (i + 1))") auto

declare leftBoundary_loop.simps [simp del]

text \<open>
  The second loop, \<open>for (let i = cursorPosition; i < currentText.length; i++)\<close>, started
  at \<open>i\<close>: the index of the nearest separator at or above \<open>i\<close>, or the initial value
  \<open>currentText.length\<close> of \<open>rightBoundary\<close>.
\<close>

function rightBoundary_loop :: "engine \<Rightarrow> jsstring \<Rightarrow> int \<Rightarrow> int" where
  "rightBoundary_loop e currentText i =
     (if i < int (length currentText) then
        (if includes_unit (separators e) (char_at currentText i) then i
         else rightBoundary_loop e currentText (i + 1))
      else int (length currentText))"
  by pat_completeness auto
termination
  by (relation "measure (\<lambda>(e, currentText, i). nat (int (length currentText) - i))") auto

declare rightBoundary_loop.simps [simp del]

text \<open>
  \<open>String.prototype.substring(start, end)\<close>: both arguments are clamped to
  \<open>[0, length]\<close> and swapped when the first exceeds the second; with one argument the
  end is the length.
\<close>

definition substring :: "jsstring \<Rightarrow> int \<Rightarrow> int \<Rightarrow> jsstring" where
  "substring s start end =
     (let len = int (length s);
          finalStart = min (max start 0) len;
          finalEnd = min (max end 0) len;
          from = min finalStart finalEnd;
          to = max finalStart finalEnd
      in take (nat (to - from)) (drop (nat from) s))"

definition substring_from :: "jsstring \<Rightarrow> int \<Rightarrow> jsstring" where
  "substring_from s start = substring s start (int (length s))"

definition transliterateRealTime :: "engine \<Rightarrow> jsstring \<Rightarrow> int \<Rightarrow> rt_result" where
  "transliterateRealTime e currentText cursorPosition =
     (if \<not> isEnabled e then \<lparr>text = currentText, newCursorPosition = cursorPosition\<rparr>
      else
        let leftBoundary = leftBoundary_loop e currentText (cursorPosition - 1);
            rightBoundary = rightBoundary_loop e currentText cursorPosition;
            committedPrefix = substring currentText 0 (leftBoundary + 1);
            activeSegment = substring currentText (leftBoundary + 1) rightBoundary;
            suffix = substring_from currentText rightBoundary;
            transliteratedCommittedPrefix = transliterate e committedPrefix;
            transliteratedActiveSegment = transliterate e activeSegment;
            transliteratedSuffix = transliterate e suffix;
            newText = transliteratedCommittedPrefix @ transliteratedActiveSegment
                        @ transliteratedSuffix;
            previewUpToCursor = transliterate e (substring currentText 0 cursorPosition)
        in \<lparr>text = newText, newCursorPosition = int (length previewUpToCursor)\<rparr>)"

section \<open>The loop counter as a JavaScript number\<close>

text \<open>
  A JavaScript number is an IEEE 754 double. Every integer of magnitude up to \<open>2^53\<close>
  is a double; beyond, the doubles are the multiples of the spacing of their binade
  (2 from \<open>2^53\<close>, 4 from \<open>2^54\<close>, and so on), and the result of \<open>i - 1\<close> or
  \<open>i + 1\<close> is rounded to the nearest double, a tie going to the one with the even
  significand. \<open>ulp n\<close> is the spacing at magnitude \<open>n\<close>; \<open>js_round\<close> rounds an
  integer (overflow to infinity, beyond \<open>2^1024\<close>, is left out). An integer \<open>c\<close> is a
  JavaScript number exactly when \<open>js_round c = c\<close>.
\<close>

function ulp :: "int \<Rightarrow> int" where
  "ulp n = (if n < 2 ^ 53 then 1 else 2 * ulp (n div 2))"
  by pat_completeness auto
termination
  by (relation "measure nat") auto

declare ulp.simps [simp del]

definition js_round :: "int \<Rightarrow> int" where
  "js_round x =
     (let u = ulp \<bar>x\<bar>; q = x div u; r = x mod u
      in if 2 * r < u then q * u
         else if u < 2 * r then (q + 1) * u
         else if even q then q * u else (q + 1) * u)"

text \<open>
  The two loops with the counter as a double. A loop that never exits has the value
  \<open>None\<close>.
\<close>

partial_function (option) leftBoundary_loop_double :: "engine \<Rightarrow> jsstring \<Rightarrow> int \<Rightarrow> int option"
  where
  "leftBoundary_loop_double e currentText i =
     (if i \<ge> 0 then
        (if includes_unit (separators e) (char_at currentText i) then Some i
         else leftBoundary_loop_double e currentText (js_round (i - 1)))
      else Some (- 1))"

partial_function (option) rightBoundary_loop_double :: "engine \<Rightarrow> jsstring \<Rightarrow> int \<Rightarrow> int option"
  where
  "rightBoundary_loop_double e currentText i =
     (if i < int (length currentText) then
        (if includes_unit (separators e) (char_at currentText i) then Some i
         else rightBoundary_loop_double e currentText (js_round (i + 1)))
      else Some (int (length currentText)))"

text \<open>
  \<open>transliterateRealTime\<close> on doubles: \<open>None\<close> when one of the loops does not exit,
  otherwise the record the code returns.
\<close>

definition transliterateRealTime_double :: "engine \<Rightarrow> jsstring \<Rightarrow> int \<Rightarrow> rt_result option"
  where
  "transliterateRealTime_double e currentText cursorPosition =
     (if \<not> isEnabled e then Some \<lparr>text = currentText, newCursorPosition = cursorPosition\<rparr>
      else
        case leftBoundary_loop_double e currentText (js_round (cursorPosition - 1)) of
          None \<Rightarrow> None
        | Some leftBoundary \<Rightarrow>
            (case rightBoundary_loop_double e currentText cursorPosition of
               None \<Rightarrow> None
             | Some rightBoundary \<Rightarrow>
                 let committedPrefix = substring currentText 0 (js_round (leftBoundary + 1));
                     activeSegment =
                       substring currentText (js_round (leftBoundary + 1)) rightBoundary;
                     suffix = substring_from currentText rightBoundary;
                     transliteratedCommittedPrefix = transliterate e committedPrefix;
                     transliteratedActiveSegment = transliterate e activeSegment;
                     transliteratedSuffix = transliterate e suffix;
                     newText = transliteratedCommittedPrefix @ transliteratedActiveSegment
                                 @ transliteratedSuffix;
                     previewUpToCursor =
                       transliterate e (substring currentText 0 cursorPosition)
                 in Some \<lparr>text = newText,
                          newCursorPosition = int (length previewUpToCursor)\<rparr>))"

section \<open>Auxiliary notions about a rule table\<close>

text \<open>
  The code units that some two-letter pattern of the table accepts in its first place,
  and those it accepts in its second place.
\<close>

definition starts_digraph :: "rule list \<Rightarrow> jschar \<Rightarrow> bool" where
  "starts_digraph rs c =
     list_ex (\<lambda>r. length (source (pattern r)) = 2 \<and>
                   unit_matches (ignoreCase (pattern r)) (source (pattern r) ! 0) c) rs"

definition ends_digraph :: "rule list \<Rightarrow> jschar \<Rightarrow> bool" where
  "ends_digraph rs c =
     list_ex (\<lambda>r. length (source (pattern r)) = 2 \<and>
                   unit_matches (ignoreCase (pattern r)) (source (pattern r) ! 1) c) rs"

text \<open>
  The cursor stands strictly inside the text, behind a code unit that can start a
  two-letter pattern and in front of one that can end it.
\<close>

definition between_digraph_letters :: "engine \<Rightarrow> jsstring \<Rightarrow> int \<Rightarrow> bool" where
  "between_digraph_letters e t c =
     (0 < c \<and> c < int (length t) \<and> starts_digraph (rules e) (t ! nat (c - 1)) \<and>
      ends_digraph (rules e) (t ! nat c))"

text \<open>A code unit is covered when some place of some pattern of the table accepts it.\<close>

definition covered :: "engine \<Rightarrow> jschar \<Rightarrow> bool" where
  "covered e c =
     list_ex (\<lambda>r. list_ex (\<lambda>p. unit_matches (ignoreCase (pattern r)) p c)
                           (source (pattern r))) (rules e)"

text \<open>
  The shape shared by the two tables, as a check that runs on a table: every pattern is
  global, ASCII and one or two code units long; every replacement is one code unit outside
  ASCII; no code unit starts one two-letter pattern and ends another; and what ends a
  two-letter pattern is also the pattern of a one-letter rule with the same case flag.
\<close>

definition wf_rule :: "rule list \<Rightarrow> rule \<Rightarrow> bool" where
  "wf_rule rs r =
     (global (pattern r) \<and> length (arabic r) = 1 \<and>
      list_all (\<lambda>g. \<not> g < 0x80) (arabic r) \<and>
      list_all (\<lambda>p. p < 0x80) (source (pattern r)) \<and>
      (length (source (pattern r)) = 1 \<or>
       length (source (pattern r)) = 2 \<and>
       list_all (\<lambda>r'. length (source (pattern r')) \<noteq> 2 \<or>
                   ascii_upper (source (pattern r) ! 0)
                     \<noteq> ascii_upper (source (pattern r') ! 1)) rs \<and>
       list_ex (\<lambda>r'. source (pattern r') = [source (pattern r) ! 1] \<and>
                   ignoreCase (pattern r') = ignoreCase (pattern r)) rs))"

definition wf_rules :: "rule list \<Rightarrow> bool" where
  "wf_rules rs = list_all (wf_rule rs) rs"

text \<open>The loop of \<open>transliterate\<close> on its own.\<close>

definition apply_rules :: "rule list \<Rightarrow> jsstring \<Rightarrow> jsstring" where
  "apply_rules rs s = fold (\<lambda>rule result. replace (pattern rule) (arabic rule) result) rs s"

text \<open>
  A cut between \<open>xs\<close> and \<open>ys\<close> that no two-letter pattern can straddle.
\<close>

definition clean_cut :: "rule list \<Rightarrow> jsstring \<Rightarrow> jsstring \<Rightarrow> bool" where
  "clean_cut rs xs ys =
     (xs = [] \<or> ys = [] \<or> \<not> starts_digraph rs (last xs) \<or> \<not> ends_digraph rs (hd ys))"

text \<open>
  How the image of a prefix \<open>y\<close> relates to the image of the whole text \<open>x\<close> along
  the rule chain: either \<open>y\<close> is still a prefix of \<open>x\<close>, or the two agree up to the last
  code unit of \<open>y\<close>, and neither that code unit nor the one in its place in \<open>x\<close> can end
  a two-letter pattern.
\<close>

definition tracks :: "rule list \<Rightarrow> jsstring \<Rightarrow> jsstring \<Rightarrow> bool" where
  "tracks rs x y =
     ((\<exists>v. x = y @ v) \<or>
      (\<exists>u a b v. x = u @ a # v \<and> y = u @ [b] \<and> \<not> ends_digraph rs a \<and> \<not> ends_digraph rs b))"

section \<open>Properties of \<open>replace\<close>\<close>

lemma unit_matches_ascii:
  "unit_matches ic p c \<Longrightarrow> p < 0x80 \<Longrightarrow> c < 0x80 \<and> ascii_upper c = ascii_upper p"
  by (auto simp: unit_matches_def)

lemma matches_at_nth:
  "matches_at ic ps s \<Longrightarrow> k < length ps \<Longrightarrow> k < length s \<and> unit_matches ic (ps ! k) (s ! k)"
proof (induction ic ps s arbitrary: k rule: matches_at.induct)
  case (1 ic s)
  then show ?case by simp
next
  case (2 ic p ps)
  then show ?case by simp
next
  case (3 ic p ps c cs)
  then show ?case by (cases k) auto
qed

lemma replace_unmatched:
  assumes "k < length (source re)" and "\<forall>c \<in> set s. \<not> unit_matches (ignoreCase re) (source re ! k) c"
  shows "replace re rep s = s"
  using assms(2)
proof (induction s)
  case Nil
  from assms(1) show ?case by auto
next
  case (Cons c cs)
  have "\<not> matches_at (ignoreCase re) (source re) (c # cs)"
  proof
    assume "matches_at (ignoreCase re) (source re) (c # cs)"
    from matches_at_nth [OF this assms(1)]
    have "k < length (c # cs)" and "unit_matches (ignoreCase re) (source re ! k) ((c # cs) ! k)"
      by simp_all
    moreover from this(1) have "(c # cs) ! k \<in> set (c # cs)" by (rule nth_mem)
    ultimately show False using Cons.prems by blast
  qed
  with Cons show ?case by simp
qed

subsection \<open>One-letter patterns\<close>

lemma replace_single_append:
  assumes "source re = [p]" and "global re"
  shows "replace re rep (xs @ ys) = replace re rep xs @ replace re rep ys"
  using assms by (induction xs) auto

subsection \<open>Two-letter patterns\<close>

lemma replace_pair_simps:
  assumes "source re = [p1, p2]" and "global re"
  shows "replace re rep [] = []"
    and "replace re rep [c] = [c]"
    and "replace re rep (c1 # c2 # cs) =
          (if unit_matches (ignoreCase re) p1 c1 \<and> unit_matches (ignoreCase re) p2 c2
           then rep @ replace re rep cs else c1 # replace re rep (c2 # cs))"
  using assms by simp_all

lemma replace_pair_append_right:
  assumes re: "source re = [p1, p2]" "global re"
    and ys: "ys = [] \<or> \<not> unit_matches (ignoreCase re) p2 (hd ys)"
  shows "replace re rep (xs @ ys) = replace re rep xs @ replace re rep ys"
proof (induction xs rule: induct_list012)
  case 1
  show ?case by (simp del: replace.simps add: replace_pair_simps [OF re])
next
  case (2 x)
  show ?case using ys
    by (cases ys) (simp_all del: replace.simps add: replace_pair_simps [OF re])
next
  case (3 x1 x2 zs)
  then show ?case by (simp del: replace.simps add: replace_pair_simps [OF re])
qed

lemma replace_pair_append_left:
  assumes re: "source re = [p1, p2]" "global re"
  shows "xs = [] \<or> \<not> unit_matches (ignoreCase re) p1 (last xs) \<Longrightarrow>
         replace re rep (xs @ ys) = replace re rep xs @ replace re rep ys"
proof (induction xs rule: induct_list012)
  case 1
  show ?case by (simp del: replace.simps add: replace_pair_simps [OF re])
next
  case (2 x)
  then show ?case
    by (cases ys) (simp_all del: replace.simps add: replace_pair_simps [OF re])
next
  case (3 x1 x2 zs)
  then show ?case by (cases "zs = []") (simp_all del: replace.simps add: replace_pair_simps [OF re])
qed

subsection \<open>Ends and contents of a replaced string\<close>

lemma replace_hd:
  assumes "source re \<noteq> []" and "ys \<noteq> []"
  shows "replace re [g] ys \<noteq> [] \<and> (hd (replace re [g] ys) = hd ys \<or> hd (replace re [g] ys) = g)"
  using assms by (cases ys) auto

lemma replace_last:
  assumes "source re \<noteq> []" and "global re"
  shows "xs \<noteq> [] \<Longrightarrow>
         replace re [g] xs \<noteq> [] \<and> (last (replace re [g] xs) = last xs \<or> last (replace re [g] xs) = g)"
proof (induction xs rule: length_induct)
  case (1 xs)
  from \<open>xs \<noteq> []\<close> obtain c cs where xs: "xs = c # cs" by (cases xs) auto
  show ?case
  proof (cases "matches_at (ignoreCase re) (source re) (c # cs)")
    case True
    let ?rest = "drop (length (source re) - 1) cs"
    have eq: "replace re [g] xs = g # replace re [g] ?rest"
      using True assms xs by simp
    show ?thesis
    proof (cases "?rest = []")
      case True
      with eq assms show ?thesis by simp
    next
      case False
      have "length ?rest < length xs" using xs by simp
      with 1 False have ih: "replace re [g] ?rest \<noteq> [] \<and>
        (last (replace re [g] ?rest) = last ?rest \<or> last (replace re [g] ?rest) = g)"
        by blast
      from False have "last ?rest = last cs" by (simp add: last_drop)
      moreover from False have "cs \<noteq> []" by auto
      ultimately show ?thesis using ih eq xs by auto
    qed
  next
    case False
    then have eq: "replace re [g] xs = c # replace re [g] cs" using xs by simp
    show ?thesis
    proof (cases "cs = []")
      case True
      with eq assms xs show ?thesis by simp
    next
      case False
      have "length cs < length xs" using xs by simp
      with 1 False have "replace re [g] cs \<noteq> [] \<and>
        (last (replace re [g] cs) = last cs \<or> last (replace re [g] cs) = g)"
        by blast
      with eq xs False show ?thesis by auto
    qed
  qed
qed

lemma set_replace:
  assumes "source re \<noteq> []"
  shows "set (replace re rep s) \<subseteq> set s \<union> set rep"
proof (induction s rule: length_induct)
  case (1 s)
  show ?case
  proof (cases s)
    case Nil
    with assms show ?thesis by simp
  next
    case (Cons c cs)
    let ?rest = "drop (length (source re) - 1) cs"
    have "length ?rest < length s" "length cs < length s" using Cons by simp_all
    with 1 have "set (replace re rep ?rest) \<subseteq> set ?rest \<union> set rep"
      and "set (replace re rep cs) \<subseteq> set cs \<union> set rep" by blast+
    moreover have "set ?rest \<subseteq> set cs" by (rule set_drop_subset)
    ultimately show ?thesis using Cons assms by auto
  qed
qed

lemma replace_single_removes:
  assumes "source re = [p]" and "global re"
  shows "c \<in> set (replace re rep s) \<Longrightarrow> c \<in> set rep \<or> (c \<in> set s \<and> \<not> unit_matches (ignoreCase re) p c)"
  using assms by (induction s) (auto split: if_splits)

section \<open>Tables of the checked shape\<close>

lemma wf_rulesD:
  assumes "wf_rules rs" and "r \<in> set rs"
  shows "wf_rule rs r"
  using assms by (simp add: wf_rules_def list_all_iff)

lemma wf_rule_shape:
  assumes "wf_rule rs r"
  obtains (single) p g where "source (pattern r) = [p]" "arabic r = [g]" "global (pattern r)"
  | (pair) p1 p2 g where "source (pattern r) = [p1, p2]" "arabic r = [g]" "global (pattern r)"
proof -
  from assms have len: "length (arabic r) = 1" and g: "global (pattern r)"
    and src: "length (source (pattern r)) = 1 \<or> length (source (pattern r)) = 2"
    by (auto simp: wf_rule_def)
  from len obtain g where a: "arabic r = [g]" by (cases "arabic r") auto
  from src show thesis
  proof
    assume "length (source (pattern r)) = 1"
    then obtain p where p: "source (pattern r) = [p]" by (cases "source (pattern r)") auto
    show thesis by (rule single [OF p a g])
  next
    assume "length (source (pattern r)) = 2"
    then obtain p1 p2 where p: "source (pattern r) = [p1, p2]"
      by (cases "source (pattern r)"; cases "tl (source (pattern r))") auto
    show thesis by (rule pair [OF p a g])
  qed
qed

lemma wf_pattern_ascii:
  "wf_rule rs r \<Longrightarrow> p \<in> set (source (pattern r)) \<Longrightarrow> p < 0x80"
  by (auto simp: wf_rule_def list_all_iff)

lemma wf_arabic_not_ascii:
  "wf_rule rs r \<Longrightarrow> g \<in> set (arabic r) \<Longrightarrow> \<not> g < 0x80"
  by (auto simp: wf_rule_def list_all_iff)

lemma starts_digraphI:
  "r \<in> set rs \<Longrightarrow> source (pattern r) = [p1, p2] \<Longrightarrow>
   unit_matches (ignoreCase (pattern r)) p1 c \<Longrightarrow> starts_digraph rs c"
  by (auto simp: starts_digraph_def list_ex_iff intro!: bexI [of _ r])

lemma ends_digraphI:
  "r \<in> set rs \<Longrightarrow> source (pattern r) = [p1, p2] \<Longrightarrow>
   unit_matches (ignoreCase (pattern r)) p2 c \<Longrightarrow> ends_digraph rs c"
  by (auto simp: ends_digraph_def list_ex_iff intro!: bexI [of _ r])

lemma starts_digraph_ascii:
  assumes "wf_rules rs" and "starts_digraph rs c"
  shows "c < 0x80"
proof -
  from assms(2) obtain r where r: "r \<in> set rs" "length (source (pattern r)) = 2"
    "unit_matches (ignoreCase (pattern r)) (source (pattern r) ! 0) c"
    by (auto simp: starts_digraph_def list_ex_iff)
  from r(2) have "source (pattern r) ! 0 \<in> set (source (pattern r))" by simp
  with wf_pattern_ascii [OF wf_rulesD [OF assms(1) r(1)]] have "source (pattern r) ! 0 < 0x80" .
  with unit_matches_ascii [OF r(3)] show ?thesis by simp
qed

lemma ends_digraph_ascii:
  assumes "wf_rules rs" and "ends_digraph rs c"
  shows "c < 0x80"
proof -
  from assms(2) obtain r where r: "r \<in> set rs" "length (source (pattern r)) = 2"
    "unit_matches (ignoreCase (pattern r)) (source (pattern r) ! 1) c"
    by (auto simp: ends_digraph_def list_ex_iff)
  from r(2) have "source (pattern r) ! 1 \<in> set (source (pattern r))" by simp
  with wf_pattern_ascii [OF wf_rulesD [OF assms(1) r(1)]] have "source (pattern r) ! 1 < 0x80" .
  with unit_matches_ascii [OF r(3)] show ?thesis by simp
qed

lemma starts_not_ends:
  assumes wf: "wf_rules rs" and s: "starts_digraph rs c"
  shows "\<not> ends_digraph rs c"
proof
  assume "ends_digraph rs c"
  then obtain r' where r': "r' \<in> set rs" "length (source (pattern r')) = 2"
    "unit_matches (ignoreCase (pattern r')) (source (pattern r') ! 1) c"
    by (auto simp: ends_digraph_def list_ex_iff)
  from s obtain r where r: "r \<in> set rs" "length (source (pattern r)) = 2"
    "unit_matches (ignoreCase (pattern r)) (source (pattern r) ! 0) c"
    by (auto simp: starts_digraph_def list_ex_iff)
  from r(2) have "source (pattern r) ! 0 \<in> set (source (pattern r))" by simp
  with wf_pattern_ascii [OF wf_rulesD [OF wf r(1)]] have "source (pattern r) ! 0 < 0x80" .
  with unit_matches_ascii [OF r(3)] have 1: "ascii_upper c = ascii_upper (source (pattern r) ! 0)"
    by simp
  from r'(2) have "source (pattern r') ! 1 \<in> set (source (pattern r'))" by simp
  with wf_pattern_ascii [OF wf_rulesD [OF wf r'(1)]] have "source (pattern r') ! 1 < 0x80" .
  with unit_matches_ascii [OF r'(3)] have 2: "ascii_upper c = ascii_upper (source (pattern r') ! 1)"
    by simp
  from wf_rulesD [OF wf r(1)] r(2) r'
  have "ascii_upper (source (pattern r) ! 0) \<noteq> ascii_upper (source (pattern r') ! 1)"
    by (auto simp: wf_rule_def list_all_iff)
  with 1 2 show False by simp
qed

lemma clean_cut_step:
  assumes wf: "wf_rules rs" and r: "r \<in> set rs" and cut: "clean_cut rs xs ys"
  shows "replace (pattern r) (arabic r) (xs @ ys)
           = replace (pattern r) (arabic r) xs @ replace (pattern r) (arabic r) ys"
    and "clean_cut rs (replace (pattern r) (arabic r) xs) (replace (pattern r) (arabic r) ys)"
proof -
  note wfr = wf_rulesD [OF wf r]
  let ?re = "pattern r"
  from wfr obtain g where g: "arabic r = [g]" and gl: "global ?re" and ne: "source ?re \<noteq> []"
    by (cases rule: wf_rule_shape) auto
  from wf_arabic_not_ascii [OF wfr] g have gna: "\<not> g < 0x80" by simp
  with starts_digraph_ascii [OF wf] ends_digraph_ascii [OF wf]
  have g_in: "\<not> starts_digraph rs g" "\<not> ends_digraph rs g" by blast+
  from wfr show "replace ?re (arabic r) (xs @ ys) = replace ?re (arabic r) xs @ replace ?re (arabic r) ys"
  proof (cases rule: wf_rule_shape)
    case (single p g')
    then show ?thesis by (simp only: replace_single_append)
  next
    case (pair p1 p2 g')
    consider "xs = []" | "ys = []" | "xs \<noteq> []" "\<not> starts_digraph rs (last xs)"
      | "ys \<noteq> []" "\<not> ends_digraph rs (hd ys)"
      using cut unfolding clean_cut_def by blast
    then show ?thesis
    proof cases
      case 1
      with pair show ?thesis by simp
    next
      case 2
      with pair show ?thesis by simp
    next
      case 3
      with starts_digraphI [OF r pair(1)]
      have "xs = [] \<or> \<not> unit_matches (ignoreCase ?re) p1 (last xs)" by blast
      from replace_pair_append_left [OF pair(1) pair(3) this] show ?thesis .
    next
      case 4
      with ends_digraphI [OF r pair(1)]
      have "ys = [] \<or> \<not> unit_matches (ignoreCase ?re) p2 (hd ys)" by blast
      from replace_pair_append_right [OF pair(1) pair(3) this] show ?thesis .
    qed
  qed
  show "clean_cut rs (replace ?re (arabic r) xs) (replace ?re (arabic r) ys)"
  proof -
    consider "xs = []" | "ys = []" | "xs \<noteq> []" "\<not> starts_digraph rs (last xs)"
      | "ys \<noteq> []" "\<not> ends_digraph rs (hd ys)"
      using cut unfolding clean_cut_def by blast
    then show ?thesis
    proof cases
      case 1
      with ne show ?thesis by (simp add: clean_cut_def)
    next
      case 2
      with ne show ?thesis by (simp add: clean_cut_def)
    next
      case 3
      from replace_last [OF ne gl 3(1), of g] 3(2) g_in(1) g
      show ?thesis by (auto simp: clean_cut_def)
    next
      case 4
      from replace_hd [OF ne 4(1), of g] 4(2) g_in(2) g
      show ?thesis by (auto simp: clean_cut_def)
    qed
  qed
qed

lemma apply_rules_simps:
  "apply_rules [] s = s"
  "apply_rules (r # rs) s = apply_rules rs (replace (pattern r) (arabic r) s)"
  by (simp_all add: apply_rules_def)

lemma apply_rules_clean_cut:
  assumes wf: "wf_rules tbl"
  shows "set rs \<subseteq> set tbl \<Longrightarrow> clean_cut tbl xs ys \<Longrightarrow>
         apply_rules rs (xs @ ys) = apply_rules rs xs @ apply_rules rs ys"
proof (induction rs arbitrary: xs ys)
  case Nil
  show ?case by (simp add: apply_rules_simps)
next
  case (Cons r rs)
  from Cons.prems have r: "r \<in> set tbl" and rs: "set rs \<subseteq> set tbl" by auto
  from clean_cut_step [OF wf r Cons.prems(2)] Cons.IH [OF rs]
  show ?case by (simp add: apply_rules_simps)
qed

lemma apply_rules_Nil:
  assumes wf: "wf_rules tbl"
  shows "set rs \<subseteq> set tbl \<Longrightarrow> apply_rules rs [] = []"
proof (induction rs)
  case Nil
  show ?case by (simp add: apply_rules_simps)
next
  case (Cons r rs)
  then have r: "r \<in> set tbl" by simp
  from wf_rulesD [OF wf r] have "source (pattern r) \<noteq> []"
    by (cases rule: wf_rule_shape) auto
  with Cons show ?case by (simp add: apply_rules_simps)
qed

lemma transliterate_apply_rules:
  "wf_rules (rules e) \<Longrightarrow> transliterate e s = apply_rules (rules e) s"
  using apply_rules_Nil [of "rules e" "rules e"]
  by (simp add: transliterate_def apply_rules_def)

lemma transliterate_clean_cut:
  assumes "wf_rules (rules e)" and "clean_cut (rules e) xs ys"
  shows "transliterate e (xs @ ys) = transliterate e xs @ transliterate e ys"
  using assms apply_rules_clean_cut [OF assms(1) subset_refl assms(2)]
  by (simp add: transliterate_apply_rules)

lemma wf_rule_table: "wf_rules (rule_table v)"
proof (cases v)
  case Background
  show ?thesis unfolding Background by code_simp
next
  case Part008
  show ?thesis unfolding Part008 by code_simp
qed

section \<open>The boundary loops and \<open>substring\<close>\<close>

lemma leftBoundary_loop_result:
  "leftBoundary_loop e t i = -1 \<or>
   (0 \<le> leftBoundary_loop e t i \<and> leftBoundary_loop e t i \<le> i \<and>
    leftBoundary_loop e t i < int (length t) \<and>
    t ! nat (leftBoundary_loop e t i) \<in> set (separators e))"
proof (induction e t i rule: leftBoundary_loop.induct)
  case (1 e t i)
  show ?case
  proof (cases "i \<ge> 0")
    case False
    then show ?thesis by (simp add: leftBoundary_loop.simps [of e t i])
  next
    case nonneg: True
    show ?thesis
    proof (cases "includes_unit (separators e) (char_at t i)")
      case True
      with nonneg have "leftBoundary_loop e t i = i"
        by (simp add: leftBoundary_loop.simps [of e t i])
      moreover from True nonneg have "i < int (length t) \<and> t ! nat i \<in> set (separators e)"
        by (auto simp: includes_unit_def char_at_def split: if_splits option.splits)
      ultimately show ?thesis using nonneg by simp
    next
      case False
      with nonneg have "leftBoundary_loop e t i = leftBoundary_loop e t (i - 1)"
        by (simp add: leftBoundary_loop.simps [of e t i])
      with "1.IH" [OF nonneg False] show ?thesis by auto
    qed
  qed
qed

lemma rightBoundary_loop_result:
  "rightBoundary_loop e t i = int (length t) \<or>
   (0 \<le> rightBoundary_loop e t i \<and> i \<le> rightBoundary_loop e t i \<and>
    rightBoundary_loop e t i < int (length t) \<and>
    t ! nat (rightBoundary_loop e t i) \<in> set (separators e))"
proof (induction e t i rule: rightBoundary_loop.induct)
  case (1 e t i)
  show ?case
  proof (cases "i < int (length t)")
    case False
    then show ?thesis by (simp add: rightBoundary_loop.simps [of e t i])
  next
    case less: True
    show ?thesis
    proof (cases "includes_unit (separators e) (char_at t i)")
      case True
      with less have "rightBoundary_loop e t i = i"
        by (simp add: rightBoundary_loop.simps [of e t i])
      moreover from True less have "0 \<le> i \<and> t ! nat i \<in> set (separators e)"
        by (auto simp: includes_unit_def char_at_def split: if_splits option.splits)
      ultimately show ?thesis using less by simp
    next
      case False
      with less have "rightBoundary_loop e t i = rightBoundary_loop e t (i + 1)"
        by (simp add: rightBoundary_loop.simps [of e t i])
      with "1.IH" [OF less False] show ?thesis by auto
    qed
  qed
qed

text \<open>Out-of-range starting points.\<close>

lemma leftBoundary_loop_negative: "i < 0 \<Longrightarrow> leftBoundary_loop e t i = -1"
  by (simp add: leftBoundary_loop.simps [of e t i])

lemma leftBoundary_loop_beyond:
  "int (length t) - 1 \<le> i \<Longrightarrow>
   leftBoundary_loop e t i = leftBoundary_loop e t (int (length t) - 1)"
proof (induction e t i rule: leftBoundary_loop.induct)
  case (1 e t i)
  show ?case
  proof (cases "i = int (length t) - 1")
    case True
    then show ?thesis by simp
  next
    case False
    with "1.prems" have big: "int (length t) \<le> i" by simp
    then have nonneg: "0 \<le> i" by simp
    from big have none: "\<not> includes_unit (separators e) (char_at t i)"
      by (simp add: includes_unit_def char_at_def)
    with nonneg have "leftBoundary_loop e t i = leftBoundary_loop e t (i - 1)"
      by (simp add: leftBoundary_loop.simps [of e t i])
    also from big have "\<dots> = leftBoundary_loop e t (int (length t) - 1)"
      by (intro "1.IH" [OF nonneg none]) simp
    finally show ?thesis .
  qed
qed

lemma rightBoundary_loop_beyond:
  "int (length t) \<le> i \<Longrightarrow> rightBoundary_loop e t i = int (length t)"
  by (simp add: rightBoundary_loop.simps [of e t i])

lemma rightBoundary_loop_negative:
  "i \<le> 0 \<Longrightarrow> rightBoundary_loop e t i = rightBoundary_loop e t 0"
proof (induction e t i rule: rightBoundary_loop.induct)
  case (1 e t i)
  show ?case
  proof (cases "i = 0")
    case True
    then show ?thesis by simp
  next
    case False
    with "1.prems" have neg: "i < 0" by simp
    then have less: "i < int (length t)" by simp
    from neg have none: "\<not> includes_unit (separators e) (char_at t i)"
      by (simp add: includes_unit_def char_at_def)
    with less have "rightBoundary_loop e t i = rightBoundary_loop e t (i + 1)"
      by (simp add: rightBoundary_loop.simps [of e t i])
    also from neg have "\<dots> = rightBoundary_loop e t 0"
      by (intro "1.IH" [OF less none]) simp
    finally show ?thesis .
  qed
qed

lemma substring_0: "substring s 0 b = take (nat b) s"
  by (auto simp: substring_def Let_def min_def max_def)

lemma substring_mid:
  "0 \<le> a \<Longrightarrow> a \<le> b \<Longrightarrow> b \<le> int (length s) \<Longrightarrow>
   substring s a b = take (nat (b - a)) (drop (nat a) s)"
  by (auto simp: substring_def Let_def min_def max_def)

lemma substring_from_drop:
  "0 \<le> a \<Longrightarrow> a \<le> int (length s) \<Longrightarrow> substring_from s a = drop (nat a) s"
  by (auto simp: substring_from_def substring_def Let_def min_def max_def)

lemma three_parts:
  assumes "0 \<le> a" "a \<le> b" "b \<le> int (length s)"
  shows "substring s 0 a @ substring s a b @ substring_from s b = s"
proof -
  have "take (nat (b - a)) (drop (nat a) s) @ drop (nat b) s = drop (nat a) s"
  proof -
    from assms have sum: "nat (b - a) + nat a = nat b" by simp
    have "drop (nat (b - a)) (drop (nat a) s) = drop (nat b) s"
      by (simp only: drop_drop sum)
    then show ?thesis by (metis append_take_drop_id)
  qed
  with assms show ?thesis
    by (simp add: substring_0 substring_mid substring_from_drop)
qed

section \<open>The text returned by \<open>transliterateRealTime\<close>\<close>

lemma starts_digraph_filter:
  "starts_digraph rs c =
     list_ex (\<lambda>r. unit_matches (ignoreCase (pattern r)) (source (pattern r) ! 0) c)
       (filter (\<lambda>r. length (source (pattern r)) = 2) rs)"
  by (auto simp: starts_digraph_def list_ex_iff)

lemma ends_digraph_filter:
  "ends_digraph rs c =
     list_ex (\<lambda>r. unit_matches (ignoreCase (pattern r)) (source (pattern r) ! 1) c)
       (filter (\<lambda>r. length (source (pattern r)) = 2) rs)"
  by (auto simp: ends_digraph_def list_ex_iff)

lemma digraph_rules:
  "filter (\<lambda>r. length (source (pattern r)) = 2) (rule_table v) =
     [\<lparr>pattern = regex ''sh'' ''gi'', arabic = [0x0634]\<rparr>,
      \<lparr>pattern = regex ''th'' ''gi'', arabic = [0x062B]\<rparr>,
      \<lparr>pattern = regex ''dh'' ''gi'', arabic = [0x0630]\<rparr>,
      \<lparr>pattern = regex ''ch'' ''gi'', arabic = [0x0634]\<rparr>]"
  by (cases v) (simp_all add: rules_background_def rules_part008_def regex_def ascii_def)

lemma separators_outside_digraphs:
  assumes "s \<in> set separator_list"
  shows "\<not> starts_digraph (rule_table v) s \<and> \<not> ends_digraph (rule_table v) s"
proof -
  have "list_all (\<lambda>s. \<not> starts_digraph (rule_table v) s \<and> \<not> ends_digraph (rule_table v) s)
          separator_list"
    unfolding starts_digraph_filter ends_digraph_filter digraph_rules
    by (simp add: separator_list_def regex_def ascii_def unit_matches_def ascii_upper_def)
  with assms show ?thesis by (simp add: list_all_iff)
qed

lemma realtime_text:
  assumes en: "isEnabled e" and wf: "wf_rules (rules e)"
    and seps: "\<And>s. s \<in> set (separators e) \<Longrightarrow>
                 \<not> starts_digraph (rules e) s \<and> \<not> ends_digraph (rules e) s"
  shows "text (transliterateRealTime e t c) = transliterate e t"
proof -
  define lb where "lb = leftBoundary_loop e t (c - 1)"
  define rb where "rb = rightBoundary_loop e t c"
  define P where "P = substring t 0 (lb + 1)"
  define A where "A = substring t (lb + 1) rb"
  define Sf where "Sf = substring_from t rb"
  have lb: "lb = -1 \<or> (0 \<le> lb \<and> lb \<le> c - 1 \<and> lb < int (length t) \<and>
              t ! nat lb \<in> set (separators e))"
    unfolding lb_def by (rule leftBoundary_loop_result)
  have rb: "rb = int (length t) \<or> (0 \<le> rb \<and> c \<le> rb \<and> rb < int (length t) \<and>
              t ! nat rb \<in> set (separators e))"
    unfolding rb_def by (rule rightBoundary_loop_result)
  from lb rb have order: "0 \<le> lb + 1" "lb + 1 \<le> rb" "rb \<le> int (length t)" by auto
  have parts: "t = P @ A @ Sf"
    unfolding P_def A_def Sf_def by (rule three_parts [OF order, symmetric])
  have cut1: "clean_cut (rules e) P (A @ Sf)"
  proof (cases "lb = -1")
    case True
    then have "P = []" by (simp add: P_def substring_0)
    then show ?thesis by (simp add: clean_cut_def)
  next
    case False
    with lb have l: "0 \<le> lb" "lb < int (length t)" "t ! nat lb \<in> set (separators e)" by auto
    then have "nat (lb + 1) = Suc (nat lb)" and "nat lb < length t" by auto
    then have "P = take (nat lb) t @ [t ! nat lb]"
      by (simp add: P_def substring_0 take_Suc_conv_app_nth)
    then have "last P = t ! nat lb" by simp
    with seps [OF l(3)] show ?thesis by (simp add: clean_cut_def)
  qed
  have cut2: "clean_cut (rules e) A Sf"
  proof (cases "rb = int (length t)")
    case True
    then have "Sf = []" by (simp add: Sf_def substring_from_drop)
    then show ?thesis by (simp add: clean_cut_def)
  next
    case False
    with rb have r: "0 \<le> rb" "rb < int (length t)" "t ! nat rb \<in> set (separators e)" by auto
    then have "nat rb < length t" by auto
    with r have "hd Sf = t ! nat rb"
      by (simp add: Sf_def substring_from_drop hd_drop_conv_nth)
    with seps [OF r(3)] show ?thesis by (simp add: clean_cut_def)
  qed
  have "text (transliterateRealTime e t c)
          = transliterate e P @ transliterate e A @ transliterate e Sf"
    using en by (simp add: transliterateRealTime_def Let_def lb_def rb_def P_def A_def Sf_def)
  also have "\<dots> = transliterate e P @ transliterate e (A @ Sf)"
    by (simp only: transliterate_clean_cut [OF wf cut2])
  also have "\<dots> = transliterate e (P @ A @ Sf)"
    by (simp only: transliterate_clean_cut [OF wf cut1])
  finally show ?thesis by (simp only: parts)
qed

section \<open>What a pass of the rule chain leaves behind\<close>

lemma apply_rules_unmatched:
  "(\<And>r. r \<in> set rs \<Longrightarrow> \<exists>k < length (source (pattern r)).
        \<forall>c \<in> set s. \<not> unit_matches (ignoreCase (pattern r)) (source (pattern r) ! k) c) \<Longrightarrow>
   apply_rules rs s = s"
proof (induction rs)
  case Nil
  show ?case by (simp add: apply_rules_simps)
next
  case (Cons r rs)
  from Cons.prems [of r] obtain k where "k < length (source (pattern r))"
    and "\<forall>c \<in> set s. \<not> unit_matches (ignoreCase (pattern r)) (source (pattern r) ! k) c"
    by auto
  then have "replace (pattern r) (arabic r) s = s" by (rule replace_unmatched)
  moreover have "apply_rules rs s = s" using Cons.prems by (intro Cons.IH) simp
  ultimately show ?case by (simp add: apply_rules_simps)
qed

lemma apply_rules_avoids:
  assumes rs: "\<And>r. r \<in> set rs \<Longrightarrow> source (pattern r) \<noteq> [] \<and> (\<forall>g \<in> set (arabic r). \<not> Q g)"
  shows "(\<And>c. c \<in> set s \<Longrightarrow> \<not> Q c) \<Longrightarrow> c \<in> set (apply_rules rs s) \<Longrightarrow> \<not> Q c"
  using rs
proof (induction rs arbitrary: s)
  case Nil
  then show ?case by (simp add: apply_rules_simps)
next
  case (Cons r rs)
  let ?s = "replace (pattern r) (arabic r) s"
  from Cons.prems(3) [of r] have ne: "source (pattern r) \<noteq> []"
    and g: "\<forall>g \<in> set (arabic r). \<not> Q g" by simp_all
  have step: "\<not> Q d" if "d \<in> set ?s" for d
    using that set_replace [OF ne, of "arabic r" s] g Cons.prems(1) by blast
  from Cons.prems(2) have "c \<in> set (apply_rules rs ?s)" by (simp add: apply_rules_simps)
  moreover have "source (pattern r') \<noteq> [] \<and> (\<forall>g \<in> set (arabic r'). \<not> Q g)"
    if "r' \<in> set rs" for r'
    using that Cons.prems(3) [of r'] by simp
  ultimately show ?case using step by (intro Cons.IH [of ?s]) blast+
qed

lemma wf_arabic_unmatched:
  assumes wf: "wf_rules tbl" and r: "r \<in> set tbl" and r': "r' \<in> set tbl"
    and p: "p \<in> set (source (pattern r))" and g: "g \<in> set (arabic r')"
  shows "\<not> unit_matches ic p g"
proof
  assume "unit_matches ic p g"
  from unit_matches_ascii [OF this wf_pattern_ascii [OF wf_rulesD [OF wf r] p]]
  have "g < 0x80" by simp
  with wf_arabic_not_ascii [OF wf_rulesD [OF wf r'] g] show False by simp
qed

lemma apply_rules_removes_single:
  assumes wf: "wf_rules tbl" and r: "r \<in> set tbl" and src: "source (pattern r) = [p]"
  shows "set rs \<subseteq> set tbl \<Longrightarrow> r \<in> set rs \<Longrightarrow> c \<in> set (apply_rules rs s) \<Longrightarrow>
         \<not> unit_matches (ignoreCase (pattern r)) p c"
proof (induction rs arbitrary: s)
  case Nil
  then show ?case by simp
next
  case (Cons r0 rs)
  let ?Q = "unit_matches (ignoreCase (pattern r)) p"
  let ?s = "replace (pattern r0) (arabic r0) s"
  from Cons.prems(1) have sub: "set rs \<subseteq> set tbl" and r0: "r0 \<in> set tbl" by auto
  from Cons.prems(3) have c: "c \<in> set (apply_rules rs ?s)" by (simp add: apply_rules_simps)
  have inert: "source (pattern r') \<noteq> [] \<and> (\<forall>g \<in> set (arabic r'). \<not> ?Q g)"
    if "r' \<in> set rs" for r'
  proof -
    from that sub have r': "r' \<in> set tbl" by auto
    from wf_rulesD [OF wf r'] have "source (pattern r') \<noteq> []"
      by (cases rule: wf_rule_shape) auto
    moreover have "\<not> ?Q g" if "g \<in> set (arabic r')" for g
      using wf_arabic_unmatched [OF wf r r' _ that, of p] src by simp
    ultimately show ?thesis by blast
  qed
  show ?case
  proof (cases "r = r0")
    case True
    from wf_rulesD [OF wf r] src have gl: "global (pattern r)"
      by (cases rule: wf_rule_shape) auto
    have "\<not> ?Q d" if "d \<in> set ?s" for d
    proof -
      from that True have "d \<in> set (replace (pattern r) (arabic r) s)" by simp
      from replace_single_removes [OF src gl this]
      show ?thesis using wf_arabic_unmatched [OF wf r r, of p d] src by auto
    qed
    with inert c show ?thesis by (intro apply_rules_avoids [of rs ?Q ?s c]) blast+
  next
    case False
    with Cons.prems(2) have "r \<in> set rs" by simp
    from Cons.IH [OF sub this c] show ?thesis .
  qed
qed

lemma apply_rules_fixed:
  assumes wf: "wf_rules tbl"
  shows "apply_rules tbl (apply_rules tbl s) = apply_rules tbl s"
proof (rule apply_rules_unmatched)
  fix r assume r: "r \<in> set tbl"
  let ?s = "apply_rules tbl s"
  note wfr = wf_rulesD [OF wf r]
  from wfr show "\<exists>k < length (source (pattern r)).
      \<forall>c \<in> set ?s. \<not> unit_matches (ignoreCase (pattern r)) (source (pattern r) ! k) c"
  proof (cases rule: wf_rule_shape)
    case (single p g)
    from apply_rules_removes_single [OF wf r single(1) subset_refl r]
    have "\<forall>c \<in> set ?s. \<not> unit_matches (ignoreCase (pattern r)) p c" by blast
    with single(1) show ?thesis by (intro exI [of _ 0]) simp
  next
    case (pair p1 p2 g)
    from wfr pair(1) obtain r' where r': "r' \<in> set tbl" "source (pattern r') = [p2]"
      "ignoreCase (pattern r') = ignoreCase (pattern r)"
      by (auto simp: wf_rule_def list_ex_iff)
    from apply_rules_removes_single [OF wf r'(1) r'(2) subset_refl r'(1)] r'(3)
    have "\<forall>c \<in> set ?s. \<not> unit_matches (ignoreCase (pattern r)) p2 c" by auto
    with pair(1) show ?thesis by (intro exI [of _ 1]) simp
  qed
qed

section \<open>The image of the text before the cursor\<close>

lemma replace_one:
  assumes "source re \<noteq> []" and "global re"
  shows "replace re [g] [b] = [b] \<or> replace re [g] [b] = [g]"
  using assms by simp

lemma tracks_step_off:
  assumes wf: "wf_rules tbl" and r: "r \<in> set tbl"
    and a: "\<not> ends_digraph tbl a" and b: "\<not> ends_digraph tbl b"
  shows "\<exists>U a' b' w.
           replace (pattern r) (arabic r) (u @ a # v) = U @ a' # w \<and>
           replace (pattern r) (arabic r) (u @ [b]) = U @ [b'] \<and>
           \<not> ends_digraph tbl a' \<and> \<not> ends_digraph tbl b'"
proof -
  note wfr = wf_rulesD [OF wf r]
  let ?re = "pattern r"
  from wfr obtain g where g: "arabic r = [g]" and gl: "global ?re" and ne: "source ?re \<noteq> []"
    by (cases rule: wf_rule_shape) auto
  from wf_arabic_not_ascii [OF wfr] g have "\<not> g < 0x80" by simp
  with ends_digraph_ascii [OF wf] have gE: "\<not> ends_digraph tbl g" by blast
  from a have "clean_cut tbl u (a # v)" by (simp add: clean_cut_def)
  from clean_cut_step(1) [OF wf r this]
  have x: "replace ?re [g] (u @ a # v) = replace ?re [g] u @ replace ?re [g] (a # v)"
    by (simp add: g)
  from b have "clean_cut tbl u [b]" by (simp add: clean_cut_def)
  from clean_cut_step(1) [OF wf r this]
  have y: "replace ?re [g] (u @ [b]) = replace ?re [g] u @ replace ?re [g] [b]"
    by (simp add: g)
  from replace_hd [OF ne, of "a # v" g]
  obtain a' w where av: "replace ?re [g] (a # v) = a' # w" and a': "a' = a \<or> a' = g"
    by (cases "replace ?re [g] (a # v)") auto
  from replace_one [OF ne gl, of g b]
  obtain b' where bv: "replace ?re [g] [b] = [b']" and b': "b' = b \<or> b' = g"
    by auto
  from a' a gE have "\<not> ends_digraph tbl a'" by auto
  moreover from b' b gE have "\<not> ends_digraph tbl b'" by auto
  ultimately show ?thesis using x y av bv g by auto
qed

lemma tracks_step:
  assumes wf: "wf_rules tbl" and r: "r \<in> set tbl" and t: "tracks tbl x y"
  shows "tracks tbl (replace (pattern r) (arabic r) x) (replace (pattern r) (arabic r) y)"
proof -
  let ?R = "replace (pattern r) (arabic r)"
  from t consider (pre) v where "x = y @ v" "clean_cut tbl y v"
    | (off) u a b v where "x = u @ a # v" "y = u @ [b]"
        "\<not> ends_digraph tbl a" "\<not> ends_digraph tbl b"
  proof (unfold tracks_def, elim disjE exE conjE)
    fix v assume x: "x = y @ v"
    assume pre: "\<And>v. x = y @ v \<Longrightarrow> clean_cut tbl y v \<Longrightarrow> thesis"
      and off: "\<And>u a v b. x = u @ a # v \<Longrightarrow> y = u @ [b] \<Longrightarrow>
                 \<not> ends_digraph tbl a \<Longrightarrow> \<not> ends_digraph tbl b \<Longrightarrow> thesis"
    show thesis
    proof (cases "clean_cut tbl y v")
      case True
      with x show thesis by (rule pre)
    next
      case False
      then have ny: "y \<noteq> []" and nv: "v \<noteq> []" and s: "starts_digraph tbl (last y)"
        by (auto simp: clean_cut_def)
      from starts_not_ends [OF wf s] have e: "\<not> ends_digraph tbl (last y)" .
      from ny have y: "y = butlast y @ [last y]" by simp
      with x have "x = butlast y @ last y # v" by (metis append.assoc append_Cons append_Nil)
      from off [OF this y e e] show thesis .
    qed
  next
    fix u a b v
    assume "x = u @ a # v" "y = u @ [b]" "\<not> ends_digraph tbl a" "\<not> ends_digraph tbl b"
      and off: "\<And>u a v b. x = u @ a # v \<Longrightarrow> y = u @ [b] \<Longrightarrow>
                 \<not> ends_digraph tbl a \<Longrightarrow> \<not> ends_digraph tbl b \<Longrightarrow> thesis"
    then show thesis by blast
  qed
  then show ?thesis
  proof cases
    case pre
    from clean_cut_step(1) [OF wf r pre(2)] pre(1) have "?R x = ?R y @ ?R v" by simp
    then show ?thesis by (auto simp: tracks_def)
  next
    case off
    from tracks_step_off [OF wf r off(3,4), of u v] off(1,2)
    show ?thesis unfolding tracks_def by blast
  qed
qed

lemma tracks_apply_rules:
  assumes wf: "wf_rules tbl"
  shows "set rs \<subseteq> set tbl \<Longrightarrow> tracks tbl x y \<Longrightarrow>
         tracks tbl (apply_rules rs x) (apply_rules rs y)"
proof (induction rs arbitrary: x y)
  case Nil
  then show ?case by (simp add: apply_rules_simps)
next
  case (Cons r rs)
  from Cons.prems have r: "r \<in> set tbl" and rs: "set rs \<subseteq> set tbl" by auto
  from Cons.IH [OF rs tracks_step [OF wf r Cons.prems(2)]]
  show ?case by (simp add: apply_rules_simps)
qed

lemma tracks_length: "tracks rs x y \<Longrightarrow> length y \<le> length x"
  by (auto simp: tracks_def)

lemma transliterate_take_length:
  assumes wf: "wf_rules (rules e)"
  shows "length (transliterate e (take n t)) \<le> length (transliterate e t)"
proof -
  have "tracks (rules e) t (take n t)"
    unfolding tracks_def by (metis append_take_drop_id)
  from tracks_length [OF tracks_apply_rules [OF wf subset_refl this]]
  show ?thesis by (simp add: transliterate_apply_rules [OF wf])
qed

lemma transliterate_take_prefix:
  assumes wf: "wf_rules (rules e)" and nb: "\<not> between_digraph_letters e t c"
  shows "take (length (transliterate e (take (nat c) t))) (transliterate e t)
           = transliterate e (take (nat c) t)"
proof -
  let ?p = "take (nat c) t" and ?q = "drop (nat c) t"
  have cut: "clean_cut (rules e) ?p ?q"
  proof (cases "0 < c \<and> c < int (length t)")
    case False
    then have "?p = [] \<or> ?q = []" by auto
    then show ?thesis by (auto simp: clean_cut_def)
  next
    case True
    then have n: "nat c < length t" and pos: "0 < nat c" by auto
    from pos obtain k where k: "nat c = Suc k" by (cases "nat c") auto
    with n have "?p = take k t @ [t ! k]" by (simp add: take_Suc_conv_app_nth)
    then have "last ?p = t ! k" by simp
    moreover from k have "k = nat (c - 1)" by auto
    ultimately have l: "last ?p = t ! nat (c - 1)" by simp
    from n have h: "hd ?q = t ! nat c" by (simp add: hd_drop_conv_nth)
    from nb True have "\<not> starts_digraph (rules e) (t ! nat (c - 1)) \<or>
        \<not> ends_digraph (rules e) (t ! nat c)"
      by (simp add: between_digraph_letters_def)
    with l h show ?thesis by (simp add: clean_cut_def)
  qed
  have "transliterate e t = transliterate e (?p @ ?q)" by simp
  also have "\<dots> = transliterate e ?p @ transliterate e ?q"
    by (rule transliterate_clean_cut [OF wf cut])
  finally show ?thesis by simp
qed

section \<open>The side condition in plain terms\<close>

lemma unit_matches_lower:
  assumes "0x61 \<le> p" and "p \<le> 0x7A"
  shows "unit_matches True p c \<longleftrightarrow> c = p \<or> c = p - 0x20"
  using assms unfolding unit_matches_def ascii_upper_def
  by (auto; unat_arith)

text \<open>
  On both tables the cursor stands between the letters of a digraph exactly when the
  code unit before it is one of \<open>s S t T d D c C\<close> and the code unit at it is \<open>h\<close> or
  \<open>H\<close>.
\<close>

lemma between_digraph_letters_iff:
  assumes "rules e = rule_table v"
  shows "between_digraph_letters e t c \<longleftrightarrow>
           0 < c \<and> c < int (length t) \<and>
           t ! nat (c - 1) \<in> {0x73, 0x53, 0x74, 0x54, 0x64, 0x44, 0x63, 0x43} \<and>
           t ! nat c \<in> {0x68, 0x48}"
  unfolding between_digraph_letters_def assms starts_digraph_filter ends_digraph_filter
    digraph_rules
  by (auto simp: regex_def ascii_def unit_matches_lower)

section \<open>The loops on doubles\<close>

lemma js_round_values:
  "js_round (2 ^ 53) = 2 ^ 53"
  "js_round (- (2 ^ 53)) = - (2 ^ 53)"
  "js_round (2 ^ 53 + 1) = 2 ^ 53"
  "js_round (- (2 ^ 53 + 1)) = - (2 ^ 53)"
  "js_round (2 ^ 53 + 2) = 2 ^ 53 + 2"
  "js_round (2 ^ 53 + 3) = 2 ^ 53 + 4"
  "js_round (- (2 ^ 53 + 3)) = - (2 ^ 53 + 4)"
  "js_round (- (2 ^ 53 + 5)) = - (2 ^ 53 + 4)"
  "js_round (2 ^ 54 - 1) = 2 ^ 54"
  by (simp_all add: js_round_def ulp.simps)

lemma ulp_small: "n < 2 ^ 53 \<Longrightarrow> ulp n = 1"
  by (simp add: ulp.simps [of n])

lemma js_round_exact:
  assumes "\<bar>x\<bar> \<le> 2 ^ 53"
  shows "js_round x = x"
proof -
  consider "\<bar>x\<bar> < 2 ^ 53" | "x = 2 ^ 53" | "x = - (2 ^ 53)" using assms by linarith
  then show ?thesis
  proof cases
    case 1
    then show ?thesis by (simp add: js_round_def ulp_small)
  next
    case 2
    show ?thesis unfolding 2 by (rule js_round_values)
  next
    case 3
    show ?thesis unfolding 3 by (rule js_round_values)
  qed
qed

text \<open>Within the exact range the loops on doubles are the loops on integers.\<close>

lemma leftBoundary_loop_double_exact:
  "i \<le> 2 ^ 53 \<Longrightarrow> leftBoundary_loop_double e t i = Some (leftBoundary_loop e t i)"
proof (induction e t i rule: leftBoundary_loop.induct)
  case (1 e t i)
  show ?case
  proof (cases "i \<ge> 0 \<and> \<not> includes_unit (separators e) (char_at t i)")
    case False
    then show ?thesis
      by (auto simp: leftBoundary_loop.simps [of e t i] leftBoundary_loop_double.simps [of e t i])
  next
    case True
    with "1.prems" have "\<bar>i - 1\<bar> \<le> 2 ^ 53" by (auto simp: abs_le_iff)
    then have "js_round (i - 1) = i - 1" by (rule js_round_exact)
    moreover from True "1.prems"
    have "leftBoundary_loop_double e t (i - 1) = Some (leftBoundary_loop e t (i - 1))"
      by (intro "1.IH") simp_all
    ultimately show ?thesis using True
      by (simp add: leftBoundary_loop.simps [of e t i] leftBoundary_loop_double.simps [of e t i])
  qed
qed

lemma rightBoundary_loop_double_exact:
  "- (2 ^ 53) \<le> i \<Longrightarrow> int (length t) \<le> 2 ^ 53 \<Longrightarrow>
   rightBoundary_loop_double e t i = Some (rightBoundary_loop e t i)"
proof (induction e t i rule: rightBoundary_loop.induct)
  case (1 e t i)
  show ?case
  proof (cases "i < int (length t) \<and> \<not> includes_unit (separators e) (char_at t i)")
    case False
    then show ?thesis
      by (auto simp: rightBoundary_loop.simps [of e t i]
            rightBoundary_loop_double.simps [of e t i])
  next
    case True
    with "1.prems" have "\<bar>i + 1\<bar> \<le> 2 ^ 53" by (auto simp: abs_le_iff)
    then have "js_round (i + 1) = i + 1" by (rule js_round_exact)
    moreover from True "1.prems"
    have "rightBoundary_loop_double e t (i + 1) = Some (rightBoundary_loop e t (i + 1))"
      by (intro "1.IH") simp_all
    ultimately show ?thesis using True
      by (simp add: rightBoundary_loop.simps [of e t i]
            rightBoundary_loop_double.simps [of e t i])
  qed
qed

text \<open>A counter that rounding sends back to itself, away from any separator, never exits.\<close>

lemma leftBoundary_loop_double_stuck:
  assumes "js_round (i - 1) = i" and "0 \<le> i"
    and "\<not> includes_unit (separators e) (char_at t i)"
  shows "leftBoundary_loop_double e t i = None"
proof -
  have "\<not> (e' = e \<and> t' = t \<and> j = i)" if "leftBoundary_loop_double e' t' j = Some y"
    for e' t' j y
  proof (rule leftBoundary_loop_double.raw_induct
      [where P = "\<lambda>e' t' j y. \<not> (e' = e \<and> t' = t \<and> j = i)", OF _ that])
    fix f e' t' j y
    assume IH: "\<And>e' t' j y. f e' t' j = Some y \<Longrightarrow> \<not> (e' = e \<and> t' = t \<and> j = i)"
      and body: "(if 0 \<le> j then
                    if includes_unit (separators e') (char_at t' j) then Some j
                    else f e' t' (js_round (j - 1))
                  else Some (- 1)) = Some y"
    show "\<not> (e' = e \<and> t' = t \<and> j = i)"
    proof
      assume "e' = e \<and> t' = t \<and> j = i"
      with body assms have "f e t i = Some y" by simp
      from IH [OF this] show False by simp
    qed
  qed
  then show ?thesis by (cases "leftBoundary_loop_double e t i") auto
qed

lemma rightBoundary_loop_double_stuck:
  assumes "js_round (i + 1) = i" and "i < int (length t)"
    and "\<not> includes_unit (separators e) (char_at t i)"
  shows "rightBoundary_loop_double e t i = None"
proof -
  have "\<not> (e' = e \<and> t' = t \<and> j = i)" if "rightBoundary_loop_double e' t' j = Some y"
    for e' t' j y
  proof (rule rightBoundary_loop_double.raw_induct
      [where P = "\<lambda>e' t' j y. \<not> (e' = e \<and> t' = t \<and> j = i)", OF _ that])
    fix f e' t' j y
    assume IH: "\<And>e' t' j y. f e' t' j = Some y \<Longrightarrow> \<not> (e' = e \<and> t' = t \<and> j = i)"
      and body: "(if j < int (length t') then
                    if includes_unit (separators e') (char_at t' j) then Some j
                    else f e' t' (js_round (j + 1))
                  else Some (int (length t'))) = Some y"
    show "\<not> (e' = e \<and> t' = t \<and> j = i)"
    proof
      assume "e' = e \<and> t' = t \<and> j = i"
      with body assms have "f e t i = Some y" by simp
      from IH [OF this] show False by simp
    qed
  qed
  then show ?thesis by (cases "rightBoundary_loop_double e t i") auto
qed

text \<open>The doubles of magnitude at most \<open>2^53 + 2\<close>.\<close>

lemma small_doubles:
  assumes "js_round c = c" and "\<bar>c\<bar> \<le> 2 ^ 53 + 2"
  shows "\<bar>c\<bar> \<le> 2 ^ 53 \<or> c = 2 ^ 53 + 2 \<or> c = - (2 ^ 53 + 2)"
proof -
  from assms(2) consider "\<bar>c\<bar> \<le> 2 ^ 53" | "c = 2 ^ 53 + 1" | "c = - (2 ^ 53 + 1)"
    | "c = 2 ^ 53 + 2" | "c = - (2 ^ 53 + 2)" by linarith
  then show ?thesis
  proof cases
    case 2
    with assms(1) js_round_values(3) show ?thesis by simp
  next
    case 3
    with assms(1) js_round_values(4) show ?thesis by simp
  qed auto
qed

lemma leftBoundary_start_exact:
  assumes len: "int (length t) < 2 ^ 53" and c: "js_round c = c" "\<bar>c\<bar> \<le> 2 ^ 53 + 2"
  shows "leftBoundary_loop_double e t (js_round (c - 1)) = Some (leftBoundary_loop e t (c - 1))"
proof -
  from small_doubles [OF c]
  consider (neg) "c \<le> 0" "js_round (c - 1) < 0" | (mid) "0 < c" "c \<le> 2 ^ 53"
    | (top) "c = 2 ^ 53 + 2"
  proof (elim disjE)
    assume a: "\<bar>c\<bar> \<le> 2 ^ 53"
    assume neg: "c \<le> 0 \<Longrightarrow> js_round (c - 1) < 0 \<Longrightarrow> thesis"
      and mid: "0 < c \<Longrightarrow> c \<le> 2 ^ 53 \<Longrightarrow> thesis"
    show thesis
    proof (cases "0 < c")
      case True
      with a show thesis by (intro mid) simp_all
    next
      case False
      have "js_round (c - 1) < 0"
      proof (cases "c = - (2 ^ 53)")
        case True
        then show ?thesis using js_round_values(4) by simp
      next
        case False
        with a \<open>\<not> 0 < c\<close> have "js_round (c - 1) = c - 1" by (intro js_round_exact) simp
        with \<open>\<not> 0 < c\<close> show ?thesis by simp
      qed
      with False show thesis by (intro neg) simp_all
    qed
  next
    assume "c = 2 ^ 53 + 2" and "c = 2 ^ 53 + 2 \<Longrightarrow> thesis"
    then show thesis by simp
  next
    assume a: "c = - (2 ^ 53 + 2)"
    assume neg: "c \<le> 0 \<Longrightarrow> js_round (c - 1) < 0 \<Longrightarrow> thesis"
    from a have "js_round (c - 1) = - (2 ^ 53 + 4)" using js_round_values(7) by simp
    with a show thesis by (intro neg) simp_all
  qed
  then show ?thesis
  proof cases
    case neg
    then show ?thesis
      by (simp add: leftBoundary_loop_negative
            leftBoundary_loop_double.simps [of e t "js_round (c - 1)"])
  next
    case mid
    then have "js_round (c - 1) = c - 1" by (intro js_round_exact) simp
    with mid show ?thesis by (simp add: leftBoundary_loop_double_exact)
  next
    case top
    then have r: "js_round (c - 1) = 2 ^ 53" using js_round_values(3) by simp
    from len top have "leftBoundary_loop e t (c - 1) = leftBoundary_loop e t (int (length t) - 1)"
      by (intro leftBoundary_loop_beyond) simp
    also from len have "\<dots> = leftBoundary_loop e t (2 ^ 53)"
      by (intro leftBoundary_loop_beyond [symmetric]) simp
    finally show ?thesis by (simp add: r leftBoundary_loop_double_exact)
  qed
qed

lemma rightBoundary_start_exact:
  assumes len: "int (length t) < 2 ^ 53" and c: "js_round c = c" "\<bar>c\<bar> \<le> 2 ^ 53 + 2"
  shows "rightBoundary_loop_double e t c = Some (rightBoundary_loop e t c)"
proof (cases "- (2 ^ 53) \<le> c")
  case True
  with len show ?thesis by (intro rightBoundary_loop_double_exact) simp_all
next
  case False
  with small_doubles [OF c] have cv: "c = - (2 ^ 53 + 2)" by auto
  then have neg: "c < 0" by simp
  then have none: "\<not> includes_unit (separators e) (char_at t c)"
    by (simp add: includes_unit_def char_at_def)
  from cv have r: "js_round (c + 1) = - (2 ^ 53)" using js_round_values(4) by simp
  from neg none r have "rightBoundary_loop_double e t c = rightBoundary_loop_double e t (- (2 ^ 53))"
    by (simp add: rightBoundary_loop_double.simps [of e t c])
  also from len have "\<dots> = Some (rightBoundary_loop e t (- (2 ^ 53)))"
    by (intro rightBoundary_loop_double_exact) simp_all
  also have "rightBoundary_loop e t (- (2 ^ 53)) = rightBoundary_loop e t 0"
    by (intro rightBoundary_loop_negative) simp
  also from neg have "rightBoundary_loop e t 0 = rightBoundary_loop e t c"
    by (intro rightBoundary_loop_negative [symmetric]) simp
  finally show ?thesis .
qed

lemma transliterateRealTime_double_exact:
  assumes len: "int (length t) < 2 ^ 53" and c: "js_round c = c" "\<bar>c\<bar> \<le> 2 ^ 53 + 2"
  shows "transliterateRealTime_double e t c = Some (transliterateRealTime e t c)"
proof -
  let ?lb = "leftBoundary_loop e t (c - 1)"
  from leftBoundary_loop_result [of e t "c - 1"] len have "\<bar>?lb + 1\<bar> \<le> 2 ^ 53" by auto
  then have "js_round (?lb + 1) = ?lb + 1" by (rule js_round_exact)
  then show ?thesis
    by (simp add: transliterateRealTime_double_def transliterateRealTime_def Let_def
          leftBoundary_start_exact [OF assms] rightBoundary_start_exact [OF assms])
qed

text \<open>Clamping, with the counters read as integers.\<close>

lemma realtime_clamp:
  assumes "isEnabled e"
  shows "c < 0 \<Longrightarrow> transliterateRealTime e t c = transliterateRealTime e t 0"
    and "int (length t) < c \<Longrightarrow>
           transliterateRealTime e t c = transliterateRealTime e t (int (length t))"
proof -
  assume neg: "c < 0"
  then have "leftBoundary_loop e t (c - 1) = leftBoundary_loop e t (0 - 1)"
    by (simp add: leftBoundary_loop_negative)
  moreover from neg have "rightBoundary_loop e t c = rightBoundary_loop e t 0"
    by (intro rightBoundary_loop_negative) simp
  moreover from neg have "substring t 0 c = substring t 0 0"
    by (simp add: substring_0)
  ultimately show "transliterateRealTime e t c = transliterateRealTime e t 0"
    using assms by (simp add: transliterateRealTime_def)
next
  assume big: "int (length t) < c"
  then have "leftBoundary_loop e t (c - 1) = leftBoundary_loop e t (int (length t) - 1)"
    by (intro leftBoundary_loop_beyond) simp
  moreover from big have "rightBoundary_loop e t c = rightBoundary_loop e t (int (length t))"
    by (simp add: rightBoundary_loop_beyond)
  moreover from big have "substring t 0 c = substring t 0 (int (length t))"
    by (simp add: substring_0)
  ultimately show "transliterateRealTime e t c = transliterateRealTime e t (int (length t))"
    using assms by (simp add: transliterateRealTime_def)
qed

text \<open>
  On doubles as on integers, the text returned is the transliteration of the whole
  input.
\<close>

lemma realtime_text_double:
  assumes "isEnabled e" and "rules e = rule_table v" and "separators e = separator_list"
    and "int (length t) < 2 ^ 53" and "js_round c = c" and "\<bar>c\<bar> \<le> 2 ^ 53 + 2"
  shows "\<exists>r. transliterateRealTime_double e t c = Some r \<and> text r = transliterate e t"
proof -
  from assms(2) have wf: "wf_rules (rules e)" by (simp add: wf_rule_table)
  have "text (transliterateRealTime e t c) = transliterate e t"
  proof (rule realtime_text [OF assms(1) wf])
    fix s assume "s \<in> set (separators e)"
    with assms(2,3) show "\<not> starts_digraph (rules e) s \<and> \<not> ends_digraph (rules e) s"
      by (simp add: separators_outside_digraphs)
  qed
  with transliterateRealTime_double_exact [OF assms(4-6), of e] show ?thesis by simp
qed

section \<open>Concrete runs of the rule chain\<close>

text \<open>
  C3. With the flag \<open>isEnabled\<close> false, \<open>transliterateRealTime\<close> returns the text and
  the cursor position it was given, whatever they are.
\<close>

theorem disabled_identity:
  "\<not> isEnabled e \<Longrightarrow>
   transliterateRealTime e t c = \<lparr>text = t, newCursorPosition = c\<rparr>"
  by (simp add: transliterateRealTime_def)

theorem disabled_identity_witness:
  "\<not> isEnabled (setEnabled False (ArabicTransliterator Part008)) \<and>
   transliterateRealTime (setEnabled False (ArabicTransliterator Part008)) (ascii ''sh'') (-7)
     = \<lparr>text = [0x73, 0x68], newCursorPosition = -7\<rparr>"
  using disabled_identity [of "setEnabled False (ArabicTransliterator Part008)" "ascii ''sh''" "-7"]
  by (simp add: setEnabled_def ArabicTransliterator_def ascii_def)

text \<open>
  C4, as the code has it. On \<open>Sham\<close> the first rule, the case-insensitive digraph
  \<open>/sh/gi\<close>, consumes \<open>Sh\<close> before the rule for upper-case \<open>S\<close> is reached: the result
  is sheen, alif, meem in both versions of the table, and the rule \<open>S\<close> finds nothing
  left to replace.
\<close>

theorem sham_digraph_first:
  "transliterate (ArabicTransliterator v) (ascii ''Sham'') = [0x0634, 0x0627, 0x0645] \<and>
   replace (pattern (rules (ArabicTransliterator v) ! 0))
           (arabic (rules (ArabicTransliterator v) ! 0)) (ascii ''Sham'')
     = [0x0634, 0x61, 0x6D]"
proof (cases v)
  case Background
  show ?thesis unfolding Background by code_simp
next
  case Part008
  show ?thesis unfolding Part008 by code_simp
qed

text \<open>
  The reading of C4 in which \<open>Sham\<close> starts with sad, followed by the images of \<open>h\<close>,
  \<open>a\<close> and \<open>m\<close>, fails on both tables.
\<close>

theorem sham_counterexample:
  "hd (transliterate (ArabicTransliterator Part008) (ascii ''Sham'')) \<noteq> 0x0635 \<and>
   transliterate (ArabicTransliterator Part008) (ascii ''Sham'')
     \<noteq> [0x0635, 0x0647, 0x0627, 0x0645] \<and>
   hd (transliterate (ArabicTransliterator Background) (ascii ''Sham'')) \<noteq> 0x0635 \<and>
   transliterate (ArabicTransliterator Background) (ascii ''Sham'')
     \<noteq> [0x0635, 0x0647, 0x0627, 0x0645]"
  by code_simp

text \<open>
  C5. In the table of \<open>part_008\<close> the rules for upper-case \<open>T\<close>, \<open>O\<close> and \<open>Y\<close> stand
  in the case-sensitive group behind \<open>S\<close>, \<open>D\<close>, \<open>Z\<close> (indices 14 to 16) and map to
  ta, waw with hamza and ya with hamza; the rule for lower-case \<open>t\<close> stands among the
  single letters (index 19) and maps to ta marbuta. Each of the four one-letter inputs
  is transliterated accordingly.
\<close>

theorem part008_T_O_Y_t:
  "rules (ArabicTransliterator Part008) ! 14 = \<lparr>pattern = regex ''T'' ''g'', arabic = [0x062A]\<rparr> \<and>
   rules (ArabicTransliterator Part008) ! 15 = \<lparr>pattern = regex ''O'' ''g'', arabic = [0x0624]\<rparr> \<and>
   rules (ArabicTransliterator Part008) ! 16 = \<lparr>pattern = regex ''Y'' ''g'', arabic = [0x0626]\<rparr> \<and>
   rules (ArabicTransliterator Part008) ! 19 = \<lparr>pattern = regex ''t'' ''g'', arabic = [0x0629]\<rparr> \<and>
   transliterate (ArabicTransliterator Part008) (ascii ''T'') = [0x062A] \<and>
   transliterate (ArabicTransliterator Part008) (ascii ''O'') = [0x0624] \<and>
   transliterate (ArabicTransliterator Part008) (ascii ''Y'') = [0x0626] \<and>
   transliterate (ArabicTransliterator Part008) (ascii ''t'') = [0x0629]"
  by code_simp

text \<open>
  The older table of \<open>src/background/transliteration-rules.js\<close> has no rule for
  upper-case \<open>T\<close>, \<open>O\<close>, \<open>Y\<close>; there the case-insensitive rules for \<open>t\<close>, \<open>o\<close>, \<open>y\<close>
  apply.
\<close>

lemma background_T_O_Y_t:
  "transliterate (ArabicTransliterator Background) (ascii ''TOYt'')
     = [0x062A, 0x0648, 0x064A, 0x062A]"
  by code_simp

text \<open>
  C6, as the code has it. \<open>3arabiyya\<close> has nine code units, none of them part of a
  digraph, and each is replaced by one letter: ain, alif, ra, alif, ba, and then three
  times ya (for \<open>i\<close>, \<open>y\<close>, \<open>y\<close>) before the final alif.
\<close>

theorem arabiyya_exact:
  "transliterate (ArabicTransliterator v) (ascii ''3arabiyya'')
     = [0x0639, 0x0627, 0x0631, 0x0627, 0x0628, 0x064A, 0x064A, 0x064A, 0x0627]"
proof (cases v)
  case Background
  show ?thesis unfolding Background by code_simp
next
  case Part008
  show ?thesis unfolding Part008 by code_simp
qed

text \<open>The eight-letter string of C6, with two ya only, is not the result.\<close>

theorem arabiyya_counterexample:
  "transliterate (ArabicTransliterator Part008) (ascii ''3arabiyya'')
     \<noteq> [0x0639, 0x0627, 0x0631, 0x0627, 0x0628, 0x064A, 0x064A, 0x0627] \<and>
   transliterate (ArabicTransliterator Background) (ascii ''3arabiyya'')
     \<noteq> [0x0639, 0x0627, 0x0631, 0x0627, 0x0628, 0x064A, 0x064A, 0x0627]"
  by code_simp

text \<open>
  C9. \<open>transliterate\<close> reads the rule table only, so its result is the same under either
  value of the flag; \<open>setEnabled\<close> writes the field \<open>isEnabled\<close> and leaves the rule
  table, the separators and the keyboard layout as they are.
\<close>

theorem setEnabled_frame:
  "transliterate (setEnabled b e) s = transliterate e s \<and>
   transliterate (setEnabled True e) s = transliterate (setEnabled False e) s \<and>
   rules (setEnabled b e) = rules e \<and>
   separators (setEnabled b e) = separators e \<and>
   keyboardLayout (setEnabled b e) = keyboardLayout e \<and>
   isEnabled (setEnabled b e) = b"
  by (simp add: setEnabled_def transliterate_def)

section \<open>Segmentation\<close>

text \<open>
  C1. With the engine enabled, on either rule table and with the separator list of the
  constructor, the text returned by \<open>transliterateRealTime\<close> is the transliteration of
  the whole input, for every text and every cursor position (in range or not).
\<close>

theorem segmentation_independence:
  assumes "isEnabled e" and "rules e = rule_table v" and "separators e = separator_list"
  shows "text (transliterateRealTime e t c) = transliterate e t"
proof (rule realtime_text)
  show "isEnabled e" by fact
  show "wf_rules (rules e)" using assms(2) by (simp add: wf_rule_table)
  show "\<not> starts_digraph (rules e) s \<and> \<not> ends_digraph (rules e) s"
    if "s \<in> set (separators e)" for s
    using that assms(2,3) by (simp add: separators_outside_digraphs)
qed

theorem segmentation_independence_witness:
  "isEnabled (ArabicTransliterator Part008) \<and>
   rules (ArabicTransliterator Part008) = rule_table Part008 \<and>
   separators (ArabicTransliterator Part008) = separator_list \<and>
   text (transliterateRealTime (ArabicTransliterator Part008) (ascii ''ana b7ibbak. Sham'') 6)
     = transliterate (ArabicTransliterator Part008) (ascii ''ana b7ibbak. Sham'') \<and>
   transliterate (ArabicTransliterator Part008) (ascii ''ana b7ibbak. Sham'')
     = [0x0627, 0x0646, 0x0627, 0x20, 0x0628, 0x062D, 0x064A, 0x0628, 0x0628, 0x0627, 0x0643,
        0x2E, 0x20, 0x0634, 0x0627, 0x0645]"
proof -
  have "transliterate (ArabicTransliterator Part008) (ascii ''ana b7ibbak. Sham'')
     = [0x0627, 0x0646, 0x0627, 0x20, 0x0628, 0x062D, 0x064A, 0x0628, 0x0628, 0x0627, 0x0643,
        0x2E, 0x20, 0x0634, 0x0627, 0x0645]"
    by code_simp
  with segmentation_independence [of "ArabicTransliterator Part008" Part008
      "ascii ''ana b7ibbak. Sham''" 6]
  show ?thesis by (simp add: ArabicTransliterator_def)
qed

section \<open>Cursor positions out of range\<close>

text \<open>
  C7, as the code has it. For every string (a JavaScript string has fewer than \<open>2^53\<close>
  code units) and every integer-valued number of magnitude at most \<open>2^53 + 2\<close> as cursor
  position, in range or not, \<open>transliterateRealTime\<close> returns: neither loop runs forever,
  and neither indexing nor \<open>substring\<close> can fail. With the engine enabled a negative
  cursor position gives the result of position 0, and one beyond the end gives the result
  of the position at the end.
\<close>

theorem out_of_range_cursor:
  assumes "int (length t) < 2 ^ 53" and "js_round c = c" and "\<bar>c\<bar> \<le> 2 ^ 53 + 2"
  shows "(\<exists>r. transliterateRealTime_double e t c = Some r) \<and>
         (isEnabled e \<longrightarrow>
            (c < 0 \<longrightarrow>
               transliterateRealTime_double e t c = transliterateRealTime_double e t 0) \<and>
            (int (length t) < c \<longrightarrow>
               transliterateRealTime_double e t c
                 = transliterateRealTime_double e t (int (length t))))"
proof -
  have at_c: "transliterateRealTime_double e t c = Some (transliterateRealTime e t c)"
    by (rule transliterateRealTime_double_exact [OF assms])
  have at_0: "transliterateRealTime_double e t 0 = Some (transliterateRealTime e t 0)"
    by (rule transliterateRealTime_double_exact [OF assms(1)]) (simp_all add: js_round_exact)
  from assms(1) have "\<bar>int (length t)\<bar> \<le> 2 ^ 53" by simp
  then have "js_round (int (length t)) = int (length t)"
    and "\<bar>int (length t)\<bar> \<le> 2 ^ 53 + 2" by (simp_all add: js_round_exact)
  then have at_len: "transliterateRealTime_double e t (int (length t))
      = Some (transliterateRealTime e t (int (length t)))"
    by (rule transliterateRealTime_double_exact [OF assms(1)])
  show ?thesis
  proof (intro conjI impI)
    show "\<exists>r. transliterateRealTime_double e t c = Some r" using at_c by blast
  next
    assume "isEnabled e" and "c < 0"
    from realtime_clamp(1) [OF this] show
      "transliterateRealTime_double e t c = transliterateRealTime_double e t 0"
      by (simp add: at_c at_0)
  next
    assume "isEnabled e" and "int (length t) < c"
    from realtime_clamp(2) [OF this] show
      "transliterateRealTime_double e t c = transliterateRealTime_double e t (int (length t))"
      by (simp only: at_c at_len)
  qed
qed

theorem out_of_range_cursor_witness:
  "int (length (ascii ''a sh'')) < 2 ^ 53 \<and>
   js_round (- 3) = - 3 \<and> \<bar>- 3 :: int\<bar> \<le> 2 ^ 53 + 2 \<and>
   js_round (2 ^ 53 + 2) = 2 ^ 53 + 2 \<and> \<bar>2 ^ 53 + 2 :: int\<bar> \<le> 2 ^ 53 + 2 \<and>
   isEnabled (ArabicTransliterator Part008) \<and> (- 3 :: int) < 0 \<and>
   int (length (ascii ''a sh'')) < 2 ^ 53 + 2 \<and>
   transliterateRealTime_double (ArabicTransliterator Part008) (ascii ''a sh'') (- 3)
     = transliterateRealTime_double (ArabicTransliterator Part008) (ascii ''a sh'') 0 \<and>
   transliterateRealTime_double (ArabicTransliterator Part008) (ascii ''a sh'') (2 ^ 53 + 2)
     = transliterateRealTime_double (ArabicTransliterator Part008) (ascii ''a sh'') 4 \<and>
   transliterateRealTime_double (ArabicTransliterator Part008) (ascii ''a sh'') (- 3)
     = Some \<lparr>text = [0x0627, 0x20, 0x0634], newCursorPosition = 0\<rparr> \<and>
   transliterateRealTime_double (ArabicTransliterator Part008) (ascii ''a sh'') (2 ^ 53 + 2)
     = Some \<lparr>text = [0x0627, 0x20, 0x0634], newCursorPosition = 3\<rparr>"
proof -
  let ?E = "ArabicTransliterator Part008" and ?t = "ascii ''a sh''"
  have en: "isEnabled ?E" by (simp add: ArabicTransliterator_def)
  have len: "int (length ?t) = 4" by (simp add: ascii_def)
  then have l: "int (length ?t) < 2 ^ 53" by simp
  have j3: "js_round (- 3) = - 3" by (rule js_round_exact) simp
  have j4: "js_round 4 = 4" by (rule js_round_exact) simp
  have j0: "js_round 0 = 0" by (rule js_round_exact) simp
  have jb: "js_round (2 ^ 53 + 2) = 2 ^ 53 + 2" by (rule js_round_values)
  have b3: "\<bar>- 3 :: int\<bar> \<le> 2 ^ 53 + 2" and bb: "\<bar>2 ^ 53 + 2 :: int\<bar> \<le> 2 ^ 53 + 2"
    and b4: "\<bar>4 :: int\<bar> \<le> 2 ^ 53 + 2" and b0: "\<bar>0 :: int\<bar> \<le> 2 ^ 53 + 2" by simp_all
  have v0: "transliterateRealTime ?E ?t 0
     = \<lparr>text = [0x0627, 0x20, 0x0634], newCursorPosition = 0\<rparr>" by code_simp
  have v4: "transliterateRealTime ?E ?t 4
     = \<lparr>text = [0x0627, 0x20, 0x0634], newCursorPosition = 3\<rparr>" by code_simp
  have d0: "transliterateRealTime_double ?E ?t 0
     = Some \<lparr>text = [0x0627, 0x20, 0x0634], newCursorPosition = 0\<rparr>"
    using transliterateRealTime_double_exact [OF l j0 b0, of ?E] by (simp only: v0)
  have d4: "transliterateRealTime_double ?E ?t 4
     = Some \<lparr>text = [0x0627, 0x20, 0x0634], newCursorPosition = 3\<rparr>"
    using transliterateRealTime_double_exact [OF l j4 b4, of ?E] by (simp only: v4)
  have big: "int (length ?t) < 2 ^ 53 + 2" using len by simp
  from out_of_range_cursor [OF l j3 b3, of ?E] en
  have r3: "transliterateRealTime_double ?E ?t (- 3) = transliterateRealTime_double ?E ?t 0"
    by simp
  from out_of_range_cursor [OF l jb bb, of ?E] en big
  have rb: "transliterateRealTime_double ?E ?t (2 ^ 53 + 2)
      = transliterateRealTime_double ?E ?t (int (length ?t))"
    by blast
  from r3 rb l j3 b3 jb bb en big d0 d4 show ?thesis by (simp add: len)
qed

text \<open>
  Totality fails for larger cursor positions. \<open>2^53 + 4\<close> and \<open>2^54\<close> are JavaScript
  numbers, and \<open>i--\<close> leaves them unchanged: the first loop never exits. At
  \<open>-(2^53 + 4)\<close> the same happens to \<open>i++\<close> in the second loop. The results at position
  0 and at the end of the text exist.
\<close>

theorem out_of_range_cursor_counterexample:
  "isEnabled (ArabicTransliterator Part008) \<and>
   js_round (2 ^ 53 + 4) = 2 ^ 53 + 4 \<and> js_round (2 ^ 54) = 2 ^ 54 \<and>
   js_round (- (2 ^ 53 + 4)) = - (2 ^ 53 + 4) \<and>
   transliterateRealTime_double (ArabicTransliterator Part008) (ascii ''a sh'') (2 ^ 53 + 4)
     = None \<and>
   transliterateRealTime_double (ArabicTransliterator Part008) (ascii ''a sh'') (2 ^ 54)
     = None \<and>
   transliterateRealTime_double (ArabicTransliterator Part008) (ascii ''a sh'') (- (2 ^ 53 + 4))
     = None \<and>
   transliterateRealTime_double (ArabicTransliterator Part008) (ascii ''a sh'') 0
     = Some \<lparr>text = [0x0627, 0x20, 0x0634], newCursorPosition = 0\<rparr> \<and>
   transliterateRealTime_double (ArabicTransliterator Part008) (ascii ''a sh'') 4
     = Some \<lparr>text = [0x0627, 0x20, 0x0634], newCursorPosition = 3\<rparr>"
proof -
  let ?E = "ArabicTransliterator Part008" and ?t = "ascii ''a sh''"
  have en: "isEnabled ?E" by (simp add: ArabicTransliterator_def)
  have len: "int (length ?t) = 4" by (simp add: ascii_def)
  then have l: "int (length ?t) < 2 ^ 53" by simp
  have reps: "js_round (2 ^ 53 + 4) = 2 ^ 53 + 4" "js_round (2 ^ 54) = 2 ^ 54"
    "js_round (- (2 ^ 53 + 4)) = - (2 ^ 53 + 4)"
    by (simp_all add: js_round_def ulp.simps)
  have none: "\<not> includes_unit (separators ?E) (char_at ?t i)" if "i < 0 \<or> 4 \<le> i" for i
    using that len by (auto simp: includes_unit_def char_at_def)
  have a: "transliterateRealTime_double ?E ?t (2 ^ 53 + 4) = None"
  proof -
    have r: "js_round (2 ^ 53 + 4 - 1) = 2 ^ 53 + 4" by (simp add: js_round_def ulp.simps)
    have "leftBoundary_loop_double ?E ?t (2 ^ 53 + 4) = None"
      by (rule leftBoundary_loop_double_stuck [OF r _ none]) simp_all
    then show ?thesis unfolding transliterateRealTime_double_def r using en by simp
  qed
  have b: "transliterateRealTime_double ?E ?t (2 ^ 54) = None"
  proof -
    have r: "js_round (2 ^ 54 - 1) = 2 ^ 54" by (simp add: js_round_def ulp.simps)
    have "leftBoundary_loop_double ?E ?t (2 ^ 54) = None"
      by (rule leftBoundary_loop_double_stuck [OF r _ none]) simp_all
    then show ?thesis unfolding transliterateRealTime_double_def r using en by simp
  qed
  have c: "transliterateRealTime_double ?E ?t (- (2 ^ 53 + 4)) = None"
  proof -
    have r: "js_round (- (2 ^ 53 + 4) + 1) = - (2 ^ 53 + 4)"
      by (simp add: js_round_def ulp.simps)
    have "rightBoundary_loop_double ?E ?t (- (2 ^ 53 + 4)) = None"
      by (rule rightBoundary_loop_double_stuck [OF r _ none]) (simp_all add: len)
    then show ?thesis unfolding transliterateRealTime_double_def using en
      by (simp split: option.split)
  qed
  have v0: "transliterateRealTime ?E ?t 0
     = \<lparr>text = [0x0627, 0x20, 0x0634], newCursorPosition = 0\<rparr>" by code_simp
  have v4: "transliterateRealTime ?E ?t 4
     = \<lparr>text = [0x0627, 0x20, 0x0634], newCursorPosition = 3\<rparr>" by code_simp
  have d0: "transliterateRealTime_double ?E ?t 0
     = Some \<lparr>text = [0x0627, 0x20, 0x0634], newCursorPosition = 0\<rparr>"
    using transliterateRealTime_double_exact [OF l, of 0 ?E] by (simp add: js_round_exact v0)
  have d4: "transliterateRealTime_double ?E ?t 4
     = Some \<lparr>text = [0x0627, 0x20, 0x0634], newCursorPosition = 3\<rparr>"
    using transliterateRealTime_double_exact [OF l, of 4 ?E] by (simp add: js_round_exact v4)
  from en reps a b c d0 d4 show ?thesis by (simp only: simp_thms)
qed

section \<open>Pass-through and idempotence\<close>

text \<open>
  C8. A string none of whose code units is accepted by any place of any pattern (taking
  the case flag into account) is returned unchanged, so every code unit keeps its
  position; this covers the digits 0, 1 and 4, punctuation and Arabic letters.
\<close>

theorem uncovered_pass_through:
  assumes "rules e = rule_table v" and "list_all (\<lambda>c. \<not> covered e c) s"
  shows "transliterate e s = s"
proof -
  from assms(1) have wf: "wf_rules (rules e)" by (simp add: wf_rule_table)
  have "apply_rules (rules e) s = s"
  proof (rule apply_rules_unmatched)
    fix r assume r: "r \<in> set (rules e)"
    from wf_rulesD [OF wf r] have ne: "source (pattern r) \<noteq> []"
      by (cases rule: wf_rule_shape) auto
    then have "source (pattern r) ! 0 \<in> set (source (pattern r))" by simp
    with assms(2) r
    have "\<forall>c \<in> set s. \<not> unit_matches (ignoreCase (pattern r)) (source (pattern r) ! 0) c"
      by (auto simp: covered_def list_all_iff list_ex_iff)
    with ne show "\<exists>k < length (source (pattern r)).
        \<forall>c \<in> set s. \<not> unit_matches (ignoreCase (pattern r)) (source (pattern r) ! k) c"
      by (intro exI [of _ 0]) simp
  qed
  with wf show ?thesis by (simp add: transliterate_apply_rules)
qed

theorem uncovered_pass_through_witness:
  "rules (ArabicTransliterator Part008) = rule_table Part008 \<and>
   list_all (\<lambda>c. \<not> covered (ArabicTransliterator Part008) c)
     [0x30, 0x31, 0x34, 0x2C, 0x20, 0x0634, 0x0639, 0x21] \<and>
   transliterate (ArabicTransliterator Part008)
     [0x30, 0x31, 0x34, 0x2C, 0x20, 0x0634, 0x0639, 0x21]
     = [0x30, 0x31, 0x34, 0x2C, 0x20, 0x0634, 0x0639, 0x21]"
proof -
  have r: "rules (ArabicTransliterator Part008) = rule_table Part008"
    by (simp add: ArabicTransliterator_def)
  have u: "list_all (\<lambda>c. \<not> covered (ArabicTransliterator Part008) c)
     [0x30, 0x31, 0x34, 0x2C, 0x20, 0x0634, 0x0639, 0x21]"
    by code_simp
  from uncovered_pass_through [OF r u] r u show ?thesis by simp
qed

text \<open>
  C10. A second pass changes nothing: after the first pass no code unit is left that a
  one-letter rule accepts, in particular no \<open>h\<close> or \<open>H\<close>, which every two-letter
  pattern needs in its second place.
\<close>

theorem transliterate_idempotent:
  assumes "rules e = rule_table v"
  shows "transliterate e (transliterate e s) = transliterate e s"
proof -
  from assms have wf: "wf_rules (rules e)" by (simp add: wf_rule_table)
  then show ?thesis by (simp add: transliterate_apply_rules apply_rules_fixed)
qed

theorem transliterate_idempotent_witness:
  "rules (ArabicTransliterator Part008) = rule_table Part008 \<and>
   transliterate (ArabicTransliterator Part008) (ascii ''chx Sh4'')
     = [0x0634, 0x78, 0x20, 0x0634, 0x34] \<and>
   transliterate (ArabicTransliterator Part008) [0x0634, 0x78, 0x20, 0x0634, 0x34]
     = [0x0634, 0x78, 0x20, 0x0634, 0x34]"
proof -
  have r: "rules (ArabicTransliterator Part008) = rule_table Part008"
    by (simp add: ArabicTransliterator_def)
  have t: "transliterate (ArabicTransliterator Part008) (ascii ''chx Sh4'')
     = [0x0634, 0x78, 0x20, 0x0634, 0x34]"
    by code_simp
  from transliterate_idempotent [OF r, of "ascii ''chx Sh4''"] r t show ?thesis by simp
qed

section \<open>Cursor mapping\<close>

text \<open>
  C2, as the code has it. With the engine enabled, for every text and every cursor
  position from 0 to the length of the text, the new cursor position is the length of
  the transliteration of the text before the cursor and lies between 0 and the length of
  the returned text. The returned text starts with that transliteration whenever the
  cursor does not stand between the two letters of a digraph.
\<close>

theorem cursor_mapping:
  assumes "isEnabled e" and "rules e = rule_table v" and "separators e = separator_list"
    and "0 \<le> c" and "c \<le> int (length t)"
  shows "newCursorPosition (transliterateRealTime e t c)
           = int (length (transliterate e (substring t 0 c))) \<and>
         0 \<le> newCursorPosition (transliterateRealTime e t c) \<and>
         newCursorPosition (transliterateRealTime e t c)
           \<le> int (length (text (transliterateRealTime e t c))) \<and>
         (\<not> between_digraph_letters e t c \<longrightarrow>
            take (nat (newCursorPosition (transliterateRealTime e t c)))
                 (text (transliterateRealTime e t c))
              = transliterate e (substring t 0 c))"
proof -
  from assms(2) have wf: "wf_rules (rules e)" by (simp add: wf_rule_table)
  have rt: "text (transliterateRealTime e t c) = transliterate e t"
  proof (rule realtime_text [OF assms(1) wf])
    fix s assume "s \<in> set (separators e)"
    with assms(2,3) show "\<not> starts_digraph (rules e) s \<and> \<not> ends_digraph (rules e) s"
      by (simp add: separators_outside_digraphs)
  qed
  have ncp: "newCursorPosition (transliterateRealTime e t c)
           = int (length (transliterate e (take (nat c) t)))"
    using assms(1) by (simp add: transliterateRealTime_def Let_def substring_0)
  from transliterate_take_length [OF wf, of "nat c" t]
  have le: "length (transliterate e (take (nat c) t)) \<le> length (transliterate e t)" .
  have pre: "take (length (transliterate e (take (nat c) t))) (transliterate e t)
           = transliterate e (take (nat c) t)" if "\<not> between_digraph_letters e t c"
    using that by (rule transliterate_take_prefix [OF wf])
  from ncp le pre show ?thesis by (simp add: rt substring_0)
qed

theorem cursor_mapping_witness:
  "isEnabled (ArabicTransliterator Part008) \<and>
   rules (ArabicTransliterator Part008) = rule_table Part008 \<and>
   separators (ArabicTransliterator Part008) = separator_list \<and>
   (0 :: int) \<le> 2 \<and> 2 \<le> int (length (ascii ''sha7al'')) \<and>
   \<not> between_digraph_letters (ArabicTransliterator Part008) (ascii ''sha7al'') 2 \<and>
   newCursorPosition (transliterateRealTime (ArabicTransliterator Part008) (ascii ''sha7al'') 2)
     = 1 \<and>
   int (length (transliterate (ArabicTransliterator Part008) (substring (ascii ''sha7al'') 0 2)))
     = 1 \<and>
   int (length (text (transliterateRealTime (ArabicTransliterator Part008) (ascii ''sha7al'') 2)))
     = 5 \<and>
   take (nat (newCursorPosition
          (transliterateRealTime (ArabicTransliterator Part008) (ascii ''sha7al'') 2)))
        (text (transliterateRealTime (ArabicTransliterator Part008) (ascii ''sha7al'') 2))
     = transliterate (ArabicTransliterator Part008) (substring (ascii ''sha7al'') 0 2)"
proof -
  have a: "isEnabled (ArabicTransliterator Part008)"
    "rules (ArabicTransliterator Part008) = rule_table Part008"
    "separators (ArabicTransliterator Part008) = separator_list"
    by (simp_all add: ArabicTransliterator_def)
  have nb: "\<not> between_digraph_letters (ArabicTransliterator Part008) (ascii ''sha7al'') 2"
    by code_simp
  have n: "newCursorPosition
      (transliterateRealTime (ArabicTransliterator Part008) (ascii ''sha7al'') 2) = 1"
    by code_simp
  have l: "int (length (text
      (transliterateRealTime (ArabicTransliterator Part008) (ascii ''sha7al'') 2))) = 5"
    by code_simp
  have r: "(0 :: int) \<le> 2" "2 \<le> int (length (ascii ''sha7al''))"
    by (simp_all add: ascii_def)
  from cursor_mapping [OF a r] a r nb n l show ?thesis by simp
qed

text \<open>
  The prefix part of C2 fails when the cursor splits a digraph: in \<open>sh\<close> with the cursor
  behind \<open>s\<close> the text before the cursor becomes seen, the returned text is the single
  letter sheen, and the new cursor position is 1.
\<close>

theorem cursor_mapping_counterexample:
  "(0::int) \<le> 1 \<and> 1 \<le> int (length (ascii ''sh'')) \<and>
   isEnabled (ArabicTransliterator Part008) \<and>
   transliterateRealTime (ArabicTransliterator Part008) (ascii ''sh'') 1
     = \<lparr>text = [0x0634], newCursorPosition = 1\<rparr> \<and>
   transliterate (ArabicTransliterator Part008) (substring (ascii ''sh'') 0 1) = [0x0633] \<and>
   take (nat (newCursorPosition
          (transliterateRealTime (ArabicTransliterator Part008) (ascii ''sh'') 1)))
        (text (transliterateRealTime (ArabicTransliterator Part008) (ascii ''sh'') 1))
     \<noteq> transliterate (ArabicTransliterator Part008) (substring (ascii ''sh'') 0 1)"
  by code_simp

end
